theory Spec2Isabelle
  imports Main "HOL-Library.AList" "HOL-Library.List_Lexorder" "HOL-Library.Char_ord"
begin

section \<open>Path strings: \<open>filepath.Clean\<close> and \<open>filepath.Join\<close>\<close>

text \<open>
  \<open>main.go\<close> builds every path with Go's \<open>filepath.Join\<close> and then appends the
  suffixes \<open>.json\<close> and \<open>.tmp\<close> to the resulting string. The two library functions
  are modelled for Unix paths (separator \<open>/\<close>, no volume names), following their
  documented rules: split at the separator, drop empty and \<open>.\<close> elements, let
  \<open>..\<close> cancel the element before it, drop \<open>..\<close> at the top of a rooted path, keep
  it at the top of a relative path, and return \<open>.\<close> for an empty result.
\<close>

fun split_sep :: "string \<Rightarrow> string list" where
  "split_sep [] = [[]]"
| "split_sep (c # cs) =
     (if c = CHR ''/'' then [] # split_sep cs
      else (case split_sep cs of [] \<Rightarrow> [[c]] | w # ws \<Rightarrow> (c # w) # ws))"

fun join_sep :: "string list \<Rightarrow> string" where
  "join_sep [] = []"
| "join_sep [w] = w"
| "join_sep (w # ws) = w @ CHR ''/'' # join_sep ws"

definition clean_step :: "bool \<Rightarrow> string list \<Rightarrow> string \<Rightarrow> string list" where
  "clean_step rooted st c =
     (if c = [] \<or> c = ''.'' then st
      else if c = ''..'' then
        (if st \<noteq> [] \<and> last st \<noteq> ''..'' then butlast st
         else if rooted then st
         else st @ [c])
      else st @ [c])"

definition render :: "bool \<Rightarrow> string list \<Rightarrow> string" where
  "render rooted st =
     (if rooted then CHR ''/'' # join_sep st
      else if st = [] then ''.'' else join_sep st)"

definition is_rooted :: "string \<Rightarrow> bool" where
  "is_rooted p = (case p of [] \<Rightarrow> False | c # _ \<Rightarrow> c = CHR ''/'')"

definition Clean :: "string \<Rightarrow> string" where
  "Clean p =
     (if p = [] then ''.''
      else render (is_rooted p) (foldl (clean_step (is_rooted p)) [] (split_sep p)))"

text \<open>
  \<open>filepath.Join\<close> skips the leading empty elements, joins the rest with the
  separator and cleans the result; with nothing but empty elements it returns the
  empty string.
\<close>

definition Join :: "string list \<Rightarrow> string" where
  "Join elem =
     (case dropWhile (\<lambda>e. e = []) elem of
        [] \<Rightarrow> []
      | es \<Rightarrow> Clean (join_sep es))"

text \<open>
  A plain name is a single ordinary path element: not empty, not \<open>.\<close> or \<open>..\<close>, and
  free of the separator. These are the names a directory entry can carry.
\<close>

definition plain :: "string \<Rightarrow> bool" where
  "plain c = (c \<noteq> [] \<and> c \<noteq> ''.'' \<and> c \<noteq> ''..'' \<and> CHR ''/'' \<notin> set c)"

section \<open>The file system under the store\<close>

text \<open>
  The operating system is not part of \<open>main.go\<close>; the calls the program makes
  (\<open>os.Stat\<close>, \<open>os.MkdirAll\<close>, \<open>os.WriteFile\<close>, \<open>os.Rename\<close>, \<open>os.ReadFile\<close>,
  \<open>os.ReadDir\<close>, \<open>os.RemoveAll\<close>) are modelled on a tree of directories and regular
  files without symbolic links, permissions or resource limits. A file system is an
  association list from resolved paths (lists of plain names, counted from the
  working directory, which is the root of the modelled tree) to nodes. Errors are
  the \<open>errno\<close> values; the operation name and path that Go's \<open>*PathError\<close> adds are
  left out.
\<close>

type_synonym path = "string list"
type_synonym bytes = string

datatype node = Dir | File bytes

type_synonym filesys = "(path \<times> node) list"

datatype errno = ENOENT | ENOTDIR | EISDIR | EEXIST | EINVAL | EBUSY | ENAMETOOLONG

datatype file_mode = ModeDir | ModeRegular | ModeIrregular

definition node_at :: "filesys \<Rightarrow> path \<Rightarrow> node option" where
  "node_at fs p = (if p = [] then Some Dir else map_of fs p)"

definition mode_of :: "node \<Rightarrow> file_mode" where
  "mode_of n = (case n of Dir \<Rightarrow> ModeDir | File b \<Rightarrow> ModeRegular)"

definition step :: "path \<Rightarrow> string \<Rightarrow> path" where
  "step cur c =
     (if c = [] \<or> c = ''.'' then cur
      else if c = ''..'' then butlast cur
      else cur @ [c])"

text \<open>
  Path resolution: every element is looked up in the directory reached so far,
  which therefore has to exist and to be a directory. The result is the resolved
  path of the last element, which need not exist.
\<close>

fun walk :: "filesys \<Rightarrow> path \<Rightarrow> string list \<Rightarrow> errno + path" where
  "walk fs cur [] = Inr cur"
| "walk fs cur (c # cs) =
     (case node_at fs cur of
        None \<Rightarrow> Inl ENOENT
      | Some (File b) \<Rightarrow> Inl ENOTDIR
      | Some Dir \<Rightarrow> walk fs (step cur c) cs)"

definition namei :: "filesys \<Rightarrow> string \<Rightarrow> errno + path" where
  "namei fs p = (if p = [] then Inl ENOENT else walk fs [] (split_sep p))"

definition os_stat :: "filesys \<Rightarrow> string \<Rightarrow> errno + file_mode" where
  "os_stat fs p =
     (case namei fs p of
        Inl e \<Rightarrow> Inl e
      | Inr q \<Rightarrow> (case node_at fs q of None \<Rightarrow> Inl ENOENT | Some n \<Rightarrow> Inr (mode_of n)))"

definition is_under :: "path \<Rightarrow> path \<Rightarrow> bool" where
  "is_under p k = (take (length p) k = p)"

definition remove_tree :: "filesys \<Rightarrow> path \<Rightarrow> filesys" where
  "remove_tree fs p = filter (\<lambda>kn. \<not> is_under p (fst kn)) fs"

definition set_node :: "filesys \<Rightarrow> path \<Rightarrow> node \<Rightarrow> filesys" where
  "set_node fs p n = AList.update p n fs"

definition move_tree :: "filesys \<Rightarrow> path \<Rightarrow> path \<Rightarrow> filesys" where
  "move_tree fs p q =
     map (\<lambda>kn. if is_under p (fst kn) then (q @ drop (length p) (fst kn), snd kn) else kn) fs"

text \<open>
  \<open>os.MkdirAll\<close> creates the missing directories along the path from the top
  down. It fails with \<open>ENOTDIR\<close> when an element on the way is a regular file,
  and with \<open>ENAMETOOLONG\<close> when a directory it has to create carries a name longer
  than \<open>NAME_MAX\<close>, 255 bytes. The directories created before the failure stay,
  so the call returns the file system it leaves behind together with the error.
\<close>

definition name_max :: nat where
  "name_max = 255"

fun mkdir_walk :: "filesys \<Rightarrow> path \<Rightarrow> string list \<Rightarrow> errno option \<times> filesys" where
  "mkdir_walk fs cur [] = (None, fs)"
| "mkdir_walk fs cur (c # cs) =
     (case node_at fs (step cur c) of
        Some Dir \<Rightarrow> mkdir_walk fs (step cur c) cs
      | Some (File b) \<Rightarrow> (Some ENOTDIR, fs)
      | None \<Rightarrow>
          (if name_max < length c then (Some ENAMETOOLONG, fs)
           else mkdir_walk (set_node fs (step cur c) Dir) (step cur c) cs))"

definition os_mkdir_all :: "filesys \<Rightarrow> string \<Rightarrow> errno option \<times> filesys" where
  "os_mkdir_all fs p =
     (if p = [] then (Some ENOENT, fs) else mkdir_walk fs [] (split_sep p))"

text \<open>
  \<open>os.WriteFile\<close> opens with \<open>O_WRONLY|O_CREATE|O_TRUNC\<close>: the parent has to be a
  directory, the target must not be one, and the file then holds exactly the
  bytes written.
\<close>

definition os_write_file :: "filesys \<Rightarrow> string \<Rightarrow> bytes \<Rightarrow> errno + filesys" where
  "os_write_file fs p b =
     (case namei fs p of
        Inl e \<Rightarrow> Inl e
      | Inr q \<Rightarrow> (case node_at fs q of
                    Some Dir \<Rightarrow> Inl EISDIR
                  | _ \<Rightarrow> Inr (set_node fs q (File b))))"

definition os_read_file :: "filesys \<Rightarrow> string \<Rightarrow> errno + bytes" where
  "os_read_file fs p =
     (case namei fs p of
        Inl e \<Rightarrow> Inl e
      | Inr q \<Rightarrow> (case node_at fs q of
                    None \<Rightarrow> Inl ENOENT
                  | Some Dir \<Rightarrow> Inl EISDIR
                  | Some (File b) \<Rightarrow> Inr b))"

text \<open>
  \<open>os.Rename\<close>: the source has to exist; an existing directory as target is refused
  with \<open>EEXIST\<close> (Go checks this before the system call); a regular file replaces a
  regular file or a free name in one step; a directory moves with its subtree to a
  free name outside itself.
\<close>

definition os_rename :: "filesys \<Rightarrow> string \<Rightarrow> string \<Rightarrow> errno + filesys" where
  "os_rename fs oldname newname =
     (case namei fs oldname of
        Inl e \<Rightarrow> Inl e
      | Inr po \<Rightarrow>
         (case node_at fs po of
            None \<Rightarrow> Inl ENOENT
          | Some n \<Rightarrow>
             (case namei fs newname of
                Inl e \<Rightarrow> Inl e
              | Inr pn \<Rightarrow>
                 (case node_at fs pn of
                    Some Dir \<Rightarrow> (if po = pn \<and> newname \<noteq> oldname then Inr fs else Inl EEXIST)
                  | Some (File b) \<Rightarrow>
                      (case n of
                         Dir \<Rightarrow> Inl ENOTDIR
                       | File c \<Rightarrow> (if po = pn then Inr fs
                                    else Inr (set_node (remove_tree fs po) pn (File c))))
                  | None \<Rightarrow>
                      (case n of
                         Dir \<Rightarrow> (if is_under po pn then Inl EINVAL else Inr (move_tree fs po pn))
                       | File c \<Rightarrow> Inr (set_node (remove_tree fs po) pn (File c)))))))"

text \<open>
  \<open>os.ReadDir\<close> returns the names of the entries of a directory, sorted by name.
\<close>

definition os_read_dir :: "filesys \<Rightarrow> string \<Rightarrow> errno + string list" where
  "os_read_dir fs p =
     (case namei fs p of
        Inl e \<Rightarrow> Inl e
      | Inr q \<Rightarrow>
         (case node_at fs q of
            None \<Rightarrow> Inl ENOENT
          | Some (File b) \<Rightarrow> Inl ENOTDIR
          | Some Dir \<Rightarrow>
              Inr (sort (remdups (map (\<lambda>kn. last (fst kn))
                     (filter (\<lambda>kn. fst kn \<noteq> [] \<and> butlast (fst kn) = q) fs))))))"

text \<open>
  \<open>os.RemoveAll\<close> returns \<open>nil\<close> for the empty path and for a path that does not
  exist, refuses a path that ends in a \<open>.\<close> element with \<open>EINVAL\<close>, and otherwise
  removes the node with everything below it. The root of the tree itself cannot be
  removed: its contents go and an error comes back.
\<close>

definition ends_with_dot :: "string \<Rightarrow> bool" where
  "ends_with_dot p =
     (p = ''.'' \<or> (2 \<le> length p \<and> last p = CHR ''.'' \<and> last (butlast p) = CHR ''/''))"

definition os_remove_all :: "filesys \<Rightarrow> string \<Rightarrow> errno option \<times> filesys" where
  "os_remove_all fs p =
     (if p = [] then (None, fs)
      else if ends_with_dot p then (Some EINVAL, fs)
      else (case namei fs p of
              Inl e \<Rightarrow> (if e = ENOENT then (None, fs) else (Some e, fs))
            | Inr q \<Rightarrow> (if q = [] then (Some EBUSY, []) else (None, remove_tree fs q))))"

section \<open>The store: \<open>Driver\<close> and its operations\<close>

text \<open>
  The \<open>Driver\<close> struct keeps the root directory and the registry of per-collection
  locks. A \<open>*sync.Mutex\<close> is modelled by the number of the allocation that created
  it, so two handles are the same lock exactly when the numbers agree. The calls
  run one at a time, so taking and releasing a lock leaves no trace in the state;
  the logger only prints and is left out.
\<close>

record driver =
  dir :: string
  mutexes :: "string \<rightharpoonup> nat"
  allocated :: nat

datatype error = Errorf string | OSError errno | CodecError string

definition getOrCreateMutex :: "driver \<Rightarrow> string \<Rightarrow> nat \<times> driver" where
  "getOrCreateMutex d collection =
     (case mutexes d collection of
        Some m \<Rightarrow> (m, d)
      | None \<Rightarrow> (allocated d,
                 d\<lparr>mutexes := (mutexes d)(collection \<mapsto> allocated d),
                   allocated := Suc (allocated d)\<rparr>))"

text \<open>The helper \<open>stat\<close> of \<open>main.go\<close>: the bare path first, then the path with \<open>.json\<close>.\<close>

definition stat :: "filesys \<Rightarrow> string \<Rightarrow> errno + file_mode" where
  "stat fs p =
     (case os_stat fs p of
        Inl e \<Rightarrow> (if e = ENOENT then os_stat fs (p @ ''.json'') else Inl e)
      | Inr fi \<Rightarrow> Inr fi)"

definition New :: "string \<Rightarrow> filesys \<Rightarrow> driver \<times> error option \<times> filesys" where
  "New dir0 fs =
     (let d = \<lparr>dir = Clean dir0, mutexes = Map.empty, allocated = 0\<rparr>
      in case os_stat fs (Clean dir0) of
           Inr fi \<Rightarrow> (d, None, fs)
         | Inl e \<Rightarrow> (case os_mkdir_all fs (Clean dir0) of
                       (e', fs') \<Rightarrow> (d, map_option OSError e', fs')))"

text \<open>
  \<open>json.MarshalIndent\<close> and \<open>json.Unmarshal\<close> belong to the standard library; the
  store never looks into the bytes. They are parameters of \<open>Write\<close> and \<open>Read\<close>:
  \<open>marshal v\<close> is the indented encoding of \<open>v\<close> or an error. \<open>json.Unmarshal\<close>
  decodes in place into the destination the caller passed, and may leave it partly
  filled when it fails; \<open>unmarshal b v\<close> is therefore the error of the decoder, if
  any, together with the destination as the decoder leaves it when it starts from
  \<open>v\<close>. \<open>Read\<close> returns only an error in the source; in the model it returns the
  error together with the destination after the call.
\<close>

definition Write ::
  "('v \<Rightarrow> error + bytes) \<Rightarrow> driver \<Rightarrow> filesys \<Rightarrow> string \<Rightarrow> string \<Rightarrow> 'v
    \<Rightarrow> error option \<times> driver \<times> filesys" where
  "Write marshal d fs collection resources v =
     (if collection = [] then
        (Some (Errorf ''missing collection - no place to save records''), d, fs)
      else if resources = [] then
        (Some (Errorf ''missing resources - unable to save record (no name)''), d, fs)
      else
        (let d' = snd (getOrCreateMutex d collection);
             cdir = Join [dir d, collection];
             fnlPath = Join [cdir, resources @ ''.json''];
             tmpPath = fnlPath @ ''.tmp''
         in case os_mkdir_all fs cdir of
              (Some e, fs1) \<Rightarrow> (Some (OSError e), d', fs1)
            | (None, fs1) \<Rightarrow>
               (case marshal v of
                  Inl e \<Rightarrow> (Some e, d', fs1)
                | Inr b \<Rightarrow>
                   (case os_write_file fs1 tmpPath (b @ [CHR 0x0A]) of
                      Inl e \<Rightarrow> (Some (OSError e), d', fs1)
                    | Inr fs2 \<Rightarrow>
                       (case os_rename fs2 tmpPath fnlPath of
                          Inl e \<Rightarrow> (Some (OSError e), d', fs2)
                        | Inr fs3 \<Rightarrow> (None, d', fs3))))))"

definition Read ::
  "(bytes \<Rightarrow> 'v \<Rightarrow> error option \<times> 'v) \<Rightarrow> driver \<Rightarrow> filesys \<Rightarrow> string \<Rightarrow> string \<Rightarrow> 'v
    \<Rightarrow> error option \<times> 'v" where
  "Read unmarshal d fs collection resources v =
     (if collection = [] then
        (Some (Errorf ''missing collection - no place to read record''), v)
      else if resources = [] then
        (Some (Errorf ''missing resources - no place to read record''), v)
      else
        (let record = Join [dir d, collection, resources]
         in case stat fs record of
              Inl e \<Rightarrow> (Some (OSError e), v)
            | Inr fi \<Rightarrow>
               (case os_read_file fs (record @ ''.json'') of
                  Inl e \<Rightarrow> (Some (OSError e), v)
                | Inr b \<Rightarrow> unmarshal b v)))"

text \<open>The loop of \<open>ReadAll\<close> over the directory entries, with \<open>records\<close> as accumulator.\<close>

fun read_files :: "filesys \<Rightarrow> string \<Rightarrow> string list \<Rightarrow> bytes list \<Rightarrow> error + bytes list" where
  "read_files fs cdir [] records = Inr records"
| "read_files fs cdir (name # files) records =
     (case os_read_file fs (Join [cdir, name]) of
        Inl e \<Rightarrow> Inl (OSError e)
      | Inr b \<Rightarrow> read_files fs cdir files (records @ [b]))"

definition ReadAll :: "driver \<Rightarrow> filesys \<Rightarrow> string \<Rightarrow> error + bytes list" where
  "ReadAll d fs collection =
     (if collection = [] then
        Inl (Errorf ''missing collection - no place to read records'')
      else
        (let cdir = Join [dir d, collection]
         in case stat fs cdir of
              Inl e \<Rightarrow> Inl (OSError e)
            | Inr fi \<Rightarrow>
               (case os_read_dir fs cdir of
                  Inl e \<Rightarrow> Inl (OSError e)
                | Inr files \<Rightarrow> read_files fs cdir files [])))"

definition Delete ::
  "driver \<Rightarrow> filesys \<Rightarrow> string \<Rightarrow> string \<Rightarrow> error option \<times> driver \<times> filesys" where
  "Delete d fs collection resources =
     (let p = Join [collection, resources];
          d' = snd (getOrCreateMutex d collection);
          target = Join [dir d, p]
      in case stat fs target of
           Inl e \<Rightarrow> (Some (Errorf (''unable to find file or directory named '' @ p)), d', fs)
         | Inr fi \<Rightarrow>
            (case fi of
               ModeDir \<Rightarrow>
                 (case os_remove_all fs target of
                    (e, fs') \<Rightarrow> (map_option OSError e, d', fs'))
             | ModeRegular \<Rightarrow>
                 (case os_remove_all fs (target @ ''.json'') of
                    (e, fs') \<Rightarrow> (map_option OSError e, d', fs'))
             | ModeIrregular \<Rightarrow> (None, d', fs)))"

text \<open>Sequences of calls on one store, for statements about every history.\<close>

datatype 'v op =
    OpWrite string string 'v
  | OpRead string string
  | OpReadAll string
  | OpDelete string string

fun apply_op ::
  "('v \<Rightarrow> error + bytes) \<Rightarrow> driver \<times> filesys \<Rightarrow> 'v op \<Rightarrow> driver \<times> filesys" where
  "apply_op marshal (d, fs) (OpWrite c n v) = snd (Write marshal d fs c n v)"
| "apply_op marshal (d, fs) (OpRead c n) = (d, fs)"
| "apply_op marshal (d, fs) (OpReadAll c) = (d, fs)"
| "apply_op marshal (d, fs) (OpDelete c n) = snd (Delete d fs c n)"

definition run ::
  "('v \<Rightarrow> error + bytes) \<Rightarrow> driver \<times> filesys \<Rightarrow> 'v op list \<Rightarrow> driver \<times> filesys" where
  "run marshal s ops = foldl (apply_op marshal) s ops"

text \<open>
  A small codec to run the store on: a value is a string, encoded between double
  quotes, or a value that cannot be encoded at all (as a Go channel cannot). A
  failed decode leaves a string destination as it was.
\<close>

datatype demo_value = Str string | Unencodable

definition demo_marshal :: "demo_value \<Rightarrow> error + bytes" where
  "demo_marshal v =
     (case v of
        Str s \<Rightarrow> Inr (CHR 0x22 # s @ [CHR 0x22])
      | Unencodable \<Rightarrow> Inl (CodecError ''json: unsupported type''))"

definition demo_unmarshal :: "bytes \<Rightarrow> demo_value \<Rightarrow> error option \<times> demo_value" where
  "demo_unmarshal b v =
     (if 3 \<le> length b \<and> hd b = CHR 0x22 \<and> last b = CHR 0x0A \<and> last (butlast b) = CHR 0x22
      then (None, Str (butlast (butlast (tl b))))
      else (Some (CodecError ''invalid character''), v))"

text \<open>
  A second codec, for a Go struct with an exported field \<open>Name\<close> and an unexported
  field: \<open>struct { Name string; note string }\<close>, written \<open>Struct name note\<close>.
  \<open>encoding/json\<close> leaves unexported fields out of the encoding and does not touch
  them when it decodes. The encoding is what \<open>json.MarshalIndent\<close> with a tab as
  indent prints for names without characters that JSON escapes.
\<close>

datatype demo_struct = Struct string string

definition struct_prefix :: bytes where
  "struct_prefix = [CHR ''{'', CHR 0x0A, CHR 0x09, CHR 0x22] @ ''Name'' @ [CHR 0x22] @ '': '' @ [CHR 0x22]"

definition struct_suffix :: bytes where
  "struct_suffix = [CHR 0x22, CHR 0x0A, CHR ''}'']"

definition struct_marshal :: "demo_struct \<Rightarrow> error + bytes" where
  "struct_marshal v =
     (case v of Struct name note \<Rightarrow> Inr (struct_prefix @ name @ struct_suffix))"

definition struct_unmarshal :: "bytes \<Rightarrow> demo_struct \<Rightarrow> error option \<times> demo_struct" where
  "struct_unmarshal b v =
     (case v of Struct name note \<Rightarrow>
        (if 16 \<le> length b \<and> take 12 b = struct_prefix \<and>
            drop (length b - 4) b = struct_suffix @ [CHR 0x0A]
         then (None, Struct (take (length b - 16) (drop 12 b)) note)
         else (Some (CodecError ''json: cannot unmarshal''), v)))"

definition demo_store :: "driver" where
  "demo_store = \<lparr>dir = ''db'', mutexes = Map.empty, allocated = 0\<rparr>"

definition users_fs :: filesys where
  "users_fs =
     [([''db''], Dir), ([''db'', ''users''], Dir),
      ([''db'', ''users'', ''John.json''], File (CHR 0x22 # ''hello'' @ [CHR 0x22, CHR 0x0A])),
      ([''db'', ''users'', ''Paul.json''], File ''{'')]"

definition blocked_fs :: filesys where
  "blocked_fs = [([''db''], Dir), ([''db'', ''users''], File ''x'')]"

definition leftover_fs :: filesys where
  "leftover_fs =
     [([''db''], Dir), ([''db'', ''users''], Dir),
      ([''db'', ''users'', ''b.json''], File ''B''),
      ([''db'', ''users'', ''a.json.tmp''], File ''A'')]"

definition root_fs :: filesys where
  "root_fs = [([''db''], Dir), ([''db'', ''users''], Dir), ([''x.json''], File ''X'')]"

definition dot_fs :: filesys where
  "dot_fs =
     [([''db''], Dir), ([''db'', ''users''], Dir),
      ([''db'', ''users'', ''..json''], File (CHR 0x22 # ''dot'' @ [CHR 0x22, CHR 0x0A])),
      ([''db'', ''users'', ''Paul.json''], File (CHR 0x22 # ''paul'' @ [CHR 0x22, CHR 0x0A]))]"

definition sub_collection_fs :: filesys where
  "sub_collection_fs =
     [([''db''], Dir), ([''db'', ''users''], Dir),
      ([''db'', ''users'', ''John.json''], File (CHR 0x22 # ''john'' @ [CHR 0x22, CHR 0x0A])),
      ([''db'', ''users'', ''John''], Dir),
      ([''db'', ''users'', ''John'', ''x.json''], File (CHR 0x22 # ''x'' @ [CHR 0x22, CHR 0x0A]))]"

definition nested_fs :: filesys where
  "nested_fs =
     [([''db''], Dir), ([''db'', ''users''], Dir),
      ([''db'', ''users'', ''b.json''], File ''B''),
      ([''db'', ''users'', ''sub''], Dir)]"

text \<open>
  The names in a real directory tree are plain names; the model states this of a
  file system where a claim depends on it.
\<close>

definition valid_names :: "filesys \<Rightarrow> bool" where
  "valid_names fs = list_all (\<lambda>kn. list_all plain (fst kn)) fs"

section \<open>Auxiliary notions for the proofs\<close>

text \<open>
  The elements a cleaned path is made of; the part of a cleaned path in front of its
  last element; the resolved paths all of whose proper prefixes are directories;
  and the changes of the file system that keep every directory reachable.
\<close>

definition norm_elems :: "string list \<Rightarrow> bool" where
  "norm_elems st = (\<forall>c\<in>set st. c = ''..'' \<or> plain c)"

abbreviation parts :: "bool \<Rightarrow> string \<Rightarrow> string list" where
  "parts r p \<equiv> foldl (clean_step r) [] (split_sep p)"

definition render_pref :: "bool \<Rightarrow> string list \<Rightarrow> string" where
  "render_pref r T = (if T = [] then (if r then ''/'' else []) else render r T @ ''/'')"

definition dirs_above :: "filesys \<Rightarrow> path \<Rightarrow> bool" where
  "dirs_above fs q = (\<forall>k<length q. node_at fs (take k q) = Some Dir)"

definition keeps_dirs :: "filesys \<Rightarrow> filesys \<Rightarrow> bool" where
  "keeps_dirs fs fs' =
     (\<forall>k. dirs_above fs k \<and> node_at fs k = Some Dir \<longrightarrow> node_at fs' k = Some Dir)"

section \<open>Evaluation and basic facts\<close>

lemmas path_defs = Join_def Clean_def render_def is_rooted_def clean_step_def

lemmas fs_defs = namei_def os_stat_def os_write_file_def os_read_file_def os_rename_def
  os_mkdir_all_def os_read_dir_def os_remove_all_def ends_with_dot_def node_at_def
  step_def set_node_def remove_tree_def is_under_def mode_of_def stat_def name_max_def

lemmas demo_defs = demo_store_def demo_marshal_def demo_unmarshal_def getOrCreateMutex_def
  struct_marshal_def struct_unmarshal_def struct_prefix_def struct_suffix_def

lemma node_at_root [simp]: "node_at fs [] = Some Dir"
  by (simp add: node_at_def)

lemma node_at_set_node:
  "node_at (set_node fs p n) q =
     (if q = [] then Some Dir else if q = p then Some n else node_at fs q)"
  by (simp add: node_at_def set_node_def update_conv')

lemma Write_driver:
  "fst (snd (Write marshal d fs c n v)) =
     (if c = [] \<or> n = [] then d else snd (getOrCreateMutex d c))"
  by (simp add: Write_def Let_def split: sum.splits prod.splits option.splits)

lemma Delete_driver: "fst (snd (Delete d fs c n)) = snd (getOrCreateMutex d c)"
  by (simp add: Delete_def Let_def split: sum.splits file_mode.splits prod.splits)

lemma getOrCreateMutex_keeps:
  "mutexes d c = Some m \<Longrightarrow> mutexes (snd (getOrCreateMutex d c')) c = Some m"
  by (auto simp: getOrCreateMutex_def split: option.splits)

lemma getOrCreateMutex_found:
  "mutexes d c = Some m \<Longrightarrow> fst (getOrCreateMutex d c) = m"
  by (simp add: getOrCreateMutex_def)

lemma getOrCreateMutex_dir: "dir (snd (getOrCreateMutex d c)) = dir d"
  by (simp add: getOrCreateMutex_def split: option.splits)

section \<open>Splitting, joining and cleaning\<close>

lemma split_sep_ne [simp]: "split_sep s \<noteq> []"
  by (induction s) (auto split: list.splits)

lemma split_sep_no_sep: "w \<in> set (split_sep s) \<Longrightarrow> CHR ''/'' \<notin> set w"
  by (induction s arbitrary: w) (auto split: list.splits if_splits)

lemma split_sep_single: "CHR ''/'' \<notin> set s \<Longrightarrow> split_sep s = [s]"
  by (induction s) auto

lemma split_sep_append_sep:
  "split_sep (a @ CHR ''/'' # b) = split_sep a @ split_sep b"
  by (induction a) (auto split: list.splits)

lemma split_sep_append_plain:
  "CHR ''/'' \<notin> set b \<Longrightarrow>
     split_sep (a @ b) = butlast (split_sep a) @ [last (split_sep a) @ b]"
proof (induction a)
  case Nil
  then show ?case by (simp add: split_sep_single)
next
  case (Cons c a)
  then show ?case
    by (cases "split_sep a") (auto split: list.splits)
qed

lemma join_sep_snoc:
  "join_sep (ws @ [w]) = (if ws = [] then w else join_sep ws @ CHR ''/'' # w)"
  by (induction ws rule: join_sep.induct) auto

lemma join_sep_Cons:
  "ws \<noteq> [] \<Longrightarrow> join_sep (w # ws) = w @ CHR ''/'' # join_sep ws"
  by (cases ws) auto

lemma split_join_sep:
  "ws \<noteq> [] \<Longrightarrow> \<forall>w\<in>set ws. CHR ''/'' \<notin> set w \<Longrightarrow> split_sep (join_sep ws) = ws"
proof (induction ws rule: join_sep.induct)
  case 1
  then show ?case by simp
next
  case (2 w)
  then show ?case by (simp add: split_sep_single)
next
  case (3 w v ws)
  then show ?case
    by (simp add: split_sep_append_sep split_sep_single del: join_sep.simps(3))
       (simp add: split_sep_append_sep split_sep_single)
qed


lemma plain_or_special:
  "CHR ''/'' \<notin> set c \<Longrightarrow> c = [] \<or> c = ''.'' \<or> c = ''..'' \<or> plain c"
  by (auto simp: plain_def)

lemma clean_step_plain [simp]: "plain c \<Longrightarrow> clean_step r st c = st @ [c]"
  by (simp add: clean_step_def plain_def)

lemma clean_step_skip [simp]: "clean_step r st [] = st" "clean_step r st ''.'' = st"
  by (simp_all add: clean_step_def)

lemma norm_elems_step:
  "norm_elems st \<Longrightarrow> CHR ''/'' \<notin> set c \<Longrightarrow> norm_elems (clean_step r st c)"
  using plain_or_special [of c]
  by (auto simp: norm_elems_def clean_step_def dest: in_set_butlastD)

lemma norm_elems_foldl:
  "norm_elems st \<Longrightarrow> \<forall>c\<in>set cs. CHR ''/'' \<notin> set c \<Longrightarrow>
     norm_elems (foldl (clean_step r) st cs)"
  by (induction cs arbitrary: st) (simp_all add: norm_elems_step)

lemma norm_elems_parts [simp]: "norm_elems (parts r p)"
  by (rule norm_elems_foldl) (auto simp: norm_elems_def dest: split_sep_no_sep)

lemma norm_elems_no_sep:
  assumes "norm_elems st"
  shows "\<forall>w\<in>set st. CHR ''/'' \<notin> set w"
proof
  fix w assume "w \<in> set st"
  then have "w = ''..'' \<or> plain w" using assms by (simp add: norm_elems_def)
  then show "CHR ''/'' \<notin> set w" by (auto simp: plain_def)
qed

lemma norm_elems_last:
  "norm_elems st \<Longrightarrow> st \<noteq> [] \<Longrightarrow> last st \<noteq> ''..'' \<Longrightarrow> plain (last st)"
  by (auto simp: norm_elems_def dest: last_in_set)

text \<open>Cleaning what is already clean changes nothing.\<close>

lemma foldl_clean_step_idem:
  "\<forall>c\<in>set cs. CHR ''/'' \<notin> set c \<Longrightarrow>
     foldl (clean_step r) [] (foldl (clean_step r) [] cs) = foldl (clean_step r) [] cs"
proof (induction cs rule: rev_induct)
  case Nil
  then show ?case by simp
next
  case (snoc x cs)
  define T where "T = foldl (clean_step r) [] cs"
  have IH: "foldl (clean_step r) [] T = T"
    using snoc by (simp add: T_def)
  have nT: "norm_elems T"
    unfolding T_def using snoc.prems by (intro norm_elems_foldl) (auto simp: norm_elems_def)
  have x: "x = [] \<or> x = ''.'' \<or> x = ''..'' \<or> plain x"
    using snoc.prems by (intro plain_or_special) simp
  have goal: "foldl (clean_step r) [] (clean_step r T x) = clean_step r T x"
  proof -
    consider "x = [] \<or> x = ''.''" | "plain x" | "x = ''..''" using x by blast
    then show ?thesis
    proof cases
      case 1
      then show ?thesis using IH by auto
    next
      case 2
      then show ?thesis using IH by simp
    next
      case 3
      show ?thesis
      proof (cases "T \<noteq> [] \<and> last T \<noteq> ''..''")
        case True
        then obtain T' p where Teq: "T = T' @ [p]"
          by (cases T rule: rev_cases) auto
        have pl: "plain p" using True nT norm_elems_last [of T] by (simp add: Teq)
        have "foldl (clean_step r) [] T' = T'"
          using IH pl by (simp add: Teq)
        then show ?thesis using True 3 by (simp add: clean_step_def Teq)
      next
        case False
        then show ?thesis using 3 IH by (auto simp: clean_step_def)
      qed
    qed
  qed
  show ?case using goal by (simp add: T_def)
qed

text \<open>
  Cleaning a relative path first and then continuing on top of any stack gives
  what continuing with the path itself gives.
\<close>

lemma foldl_clean_step_relative:
  "\<forall>c\<in>set cs. CHR ''/'' \<notin> set c \<Longrightarrow>
     foldl (clean_step r) S (foldl (clean_step False) [] cs) = foldl (clean_step r) S cs"
proof (induction cs rule: rev_induct)
  case Nil
  then show ?case by simp
next
  case (snoc x cs)
  define T where "T = foldl (clean_step False) [] cs"
  have IH: "foldl (clean_step r) S T = foldl (clean_step r) S cs"
    using snoc by (simp add: T_def)
  have nT: "norm_elems T"
    unfolding T_def using snoc.prems by (intro norm_elems_foldl) (auto simp: norm_elems_def)
  have x: "x = [] \<or> x = ''.'' \<or> x = ''..'' \<or> plain x"
    using snoc.prems by (intro plain_or_special) simp
  have goal: "foldl (clean_step r) S (clean_step False T x) =
      clean_step r (foldl (clean_step r) S cs) x"
  proof -
    consider "x = [] \<or> x = ''.''" | "plain x" | "x = ''..''" using x by blast
    then show ?thesis
    proof cases
      case 1
      then show ?thesis using IH by auto
    next
      case 2
      then show ?thesis using IH by simp
    next
      case 3
      show ?thesis
      proof (cases "T \<noteq> [] \<and> last T \<noteq> ''..''")
        case True
        then obtain T' p where Teq: "T = T' @ [p]"
          by (cases T rule: rev_cases) auto
        have pl: "plain p" using True nT norm_elems_last [of T] by (simp add: Teq)
        have "foldl (clean_step r) S cs = foldl (clean_step r) S T' @ [p]"
          using IH pl by (simp add: Teq)
        then show ?thesis using True 3 pl by (simp add: clean_step_def plain_def Teq)
      next
        case False
        then have "clean_step False T x = T @ [x]" using 3 by (auto simp: clean_step_def)
        then show ?thesis using IH by simp
      qed
    qed
  qed
  show ?case using goal by (simp add: T_def)
qed


lemma render_ne [simp]: "norm_elems T \<Longrightarrow> render r T \<noteq> []"
  by (cases T rule: join_sep.cases) (auto simp: render_def norm_elems_def plain_def)

lemma hd_join_sep: "ws \<noteq> [] \<Longrightarrow> hd ws \<noteq> [] \<Longrightarrow> hd (join_sep ws) = hd (hd ws)"
  by (cases ws rule: join_sep.cases) auto

lemma join_sep_ne: "ws \<noteq> [] \<Longrightarrow> hd ws \<noteq> [] \<Longrightarrow> join_sep ws \<noteq> []"
  by (cases ws rule: join_sep.cases) auto

lemma is_rooted_hd: "p \<noteq> [] \<Longrightarrow> is_rooted p = (hd p = CHR ''/'')"
  by (cases p) (auto simp: is_rooted_def)

lemma is_rooted_append [simp]: "p \<noteq> [] \<Longrightarrow> is_rooted (p @ q) = is_rooted p"
  by (cases p) (auto simp: is_rooted_def)

lemma is_rooted_render [simp]:
  assumes "norm_elems T"
  shows "is_rooted (render r T) = r"
proof (cases "T = []")
  case True
  then show ?thesis by (simp add: render_def is_rooted_def)
next
  case False
  have h: "hd T = ''..'' \<or> plain (hd T)"
    using assms False by (auto simp: norm_elems_def)
  then have ne: "hd T \<noteq> []" and ns: "hd (hd T) \<noteq> CHR ''/''"
    by (auto simp: plain_def) (metis list.set_sel(1))
  show ?thesis
  proof (cases r)
    case True
    then show ?thesis by (simp add: render_def is_rooted_def)
  next
    case r: False
    have "is_rooted (join_sep T) = (hd (join_sep T) = CHR ''/'')"
      using False ne by (intro is_rooted_hd join_sep_ne)
    then show ?thesis
      using False ne ns r by (simp add: render_def hd_join_sep)
  qed
qed

lemma foldl_split_render:
  assumes "norm_elems T"
  shows "foldl (clean_step r') S (split_sep (render r T)) = foldl (clean_step r') S T"
proof (cases "T = []")
  case True
  then show ?thesis by (simp add: render_def)
next
  case False
  then have "split_sep (join_sep T) = T"
    using assms norm_elems_no_sep split_join_sep by blast
  then show ?thesis using False by (simp add: render_def)
qed

lemma Clean_parts: "p \<noteq> [] \<Longrightarrow> Clean p = render (is_rooted p) (parts (is_rooted p) p)"
  by (simp add: Clean_def)

lemma Clean_ne [simp]: "Clean p \<noteq> []"
  by (simp add: Clean_def)

lemma is_rooted_Clean [simp]: "is_rooted (Clean p) = is_rooted p"
  by (cases "p = []") (simp_all add: Clean_parts, simp add: Clean_def is_rooted_def)

lemma foldl_split_Clean:
  "foldl (clean_step r') S (split_sep (Clean p)) =
     foldl (clean_step r') S (parts (is_rooted p) p)"
  by (cases "p = []") (simp_all add: Clean_parts foldl_split_render, simp add: Clean_def)

lemma parts_Clean: "parts (is_rooted p) (Clean p) = parts (is_rooted p) p"
  using foldl_clean_step_idem [of "split_sep p" "is_rooted p"]
  by (simp add: foldl_split_Clean split_sep_no_sep)

lemma Clean_idem: "Clean (Clean p) = Clean p"
  by (cases "p = []") (simp_all add: Clean_parts [of "Clean p"] parts_Clean,
      simp_all add: Clean_parts, simp add: Clean_def render_def is_rooted_def)

lemma Clean_after_Clean:
  assumes "p \<noteq> []"
  shows "Clean (Clean p @ CHR ''/'' # s) = Clean (p @ CHR ''/'' # s)"
proof -
  have "parts (is_rooted p) (Clean p @ CHR ''/'' # s) = parts (is_rooted p) (p @ CHR ''/'' # s)"
    by (simp add: split_sep_append_sep parts_Clean)
  then show ?thesis using assms by (simp add: Clean_parts)
qed

lemma Clean_before_relative:
  assumes "p \<noteq> []" and "\<not> is_rooted s"
  shows "Clean (p @ CHR ''/'' # Clean s) = Clean (p @ CHR ''/'' # s)"
proof -
  have "foldl (clean_step (is_rooted p)) (parts (is_rooted p) p) (split_sep (Clean s)) =
        foldl (clean_step (is_rooted p)) (parts (is_rooted p) p) (split_sep s)"
    using assms(2) foldl_clean_step_relative [of "split_sep s" "is_rooted p"]
    by (simp add: foldl_split_Clean split_sep_no_sep)
  then have "parts (is_rooted p) (p @ CHR ''/'' # Clean s) = parts (is_rooted p) (p @ CHR ''/'' # s)"
    by (simp add: split_sep_append_sep)
  then show ?thesis using assms by (simp add: Clean_parts)
qed

lemma Clean_trailing_sep: "p \<noteq> [] \<Longrightarrow> Clean (p @ ''/'') = Clean p"
  by (simp add: Clean_parts split_sep_append_sep)


lemma render_snoc: "render r (T @ [n]) = render_pref r T @ n"
  by (simp add: render_def render_pref_def join_sep_snoc)

lemma plain_append: "plain n \<Longrightarrow> CHR ''/'' \<notin> set s \<Longrightarrow> plain (n @ s)"
  by (cases n; cases "tl n") (auto simp: plain_def append_eq_Cons_conv Cons_eq_append_conv)

lemma plain_json: "CHR ''/'' \<notin> set c \<Longrightarrow> plain (c @ ''.json'')"
  by (auto simp: plain_def append_eq_Cons_conv)

lemma Clean_snoc_plain:
  "p \<noteq> [] \<Longrightarrow> plain n \<Longrightarrow>
     Clean (p @ CHR ''/'' # n) = render_pref (is_rooted p) (parts (is_rooted p) p) @ n"
  by (simp add: Clean_parts split_sep_append_sep split_sep_single plain_def render_snoc)

lemma Clean_snoc_suffix:
  "p \<noteq> [] \<Longrightarrow> plain n \<Longrightarrow> CHR ''/'' \<notin> set s \<Longrightarrow>
     Clean (p @ CHR ''/'' # n @ s) = Clean (p @ CHR ''/'' # n) @ s"
  using Clean_snoc_plain [of p "n @ s"] Clean_snoc_plain [of p n]
  by (simp add: plain_append)

lemma Join_two:
  "Join [a, b] = (if a = [] then (if b = [] then [] else Clean b) else Clean (a @ CHR ''/'' # b))"
  by (simp add: Join_def)

lemma Join_three:
  "Join [a, b, c] =
     (if a = [] then Join [b, c] else Clean (a @ CHR ''/'' # b @ CHR ''/'' # c))"
  by (simp add: Join_def)

lemma Join_nested:
  "a \<noteq> [] \<or> b \<noteq> [] \<Longrightarrow> Join [Join [a, b], s] = Join [a, b, s]"
  using Clean_after_Clean [of "a @ CHR ''/'' # b" s] Clean_after_Clean [of b s]
  by (auto simp: Join_two Join_three)

lemma Join_inner_relative:
  assumes "c \<noteq> []" and "\<not> is_rooted c"
  shows "Join [a, Join [c, n]] = Join [a, c, n]"
proof (cases "a = []")
  case True
  then show ?thesis using assms by (simp add: Join_two Join_three Clean_idem)
next
  case False
  then show ?thesis
    using assms Clean_before_relative [of a "c @ CHR ''/'' # n"]
    by (simp add: Join_two Join_three)
qed

lemma Join_suffix:
  assumes "a \<noteq> [] \<or> b \<noteq> []" and "plain n" and "CHR ''/'' \<notin> set s"
  shows "Join [a, b, n @ s] = Join [a, b, n] @ s"
proof (cases "a = []")
  case True
  then show ?thesis
    using assms Clean_snoc_suffix [of b n s] by (simp add: Join_two Join_three)
next
  case False
  then show ?thesis
    using assms Clean_snoc_suffix [of "a @ CHR ''/'' # b" n s] by (simp add: Join_three)
qed

lemma Clean_json: "\<exists>G. Clean (p @ ''.json'') = G @ ''.json''"
proof -
  define c where "c = last (split_sep p)"
  define r where "r = is_rooted (p @ ''.json'')"
  have "c \<in> set (split_sep p)" by (simp add: c_def)
  then have pl: "plain (c @ ''.json'')" by (intro plain_json split_sep_no_sep)
  have "split_sep (p @ ''.json'') = butlast (split_sep p) @ [c @ ''.json'']"
    by (simp add: split_sep_append_plain c_def)
  then have "parts r (p @ ''.json'') =
      foldl (clean_step r) [] (butlast (split_sep p)) @ [c @ ''.json'']"
    using pl by simp
  then have "Clean (p @ ''.json'') =
      (render_pref r (foldl (clean_step r) [] (butlast (split_sep p))) @ c) @ ''.json''"
    by (simp add: Clean_parts r_def render_snoc)
  then show ?thesis by blast
qed

lemma Join_json: "\<exists>G. Join [a, n @ ''.json''] = G @ ''.json''"
proof (cases "a = []")
  case True
  then show ?thesis using Clean_json [of n] by (simp add: Join_two)
next
  case False
  then show ?thesis using Clean_json [of "a @ CHR ''/'' # n"] by (simp add: Join_two)
qed

section \<open>Resolution under changes of the file system\<close>

lemma map_of_filter_fst:
  "map_of (filter (\<lambda>kn. P (fst kn)) xs) k = (if P k then map_of xs k else None)"
  by (induction xs) auto

lemma node_at_remove_tree:
  "node_at (remove_tree fs p) q =
     (if q = [] then Some Dir else if is_under p q then None else node_at fs q)"
  using map_of_filter_fst [where P = "\<lambda>k. \<not> is_under p k" and xs = fs and k = q]
  by (simp add: node_at_def remove_tree_def)

lemma is_under_refl [simp]: "is_under p p"
  by (simp add: is_under_def)

lemma step_plain [simp]: "plain c \<Longrightarrow> step q c = q @ [c]"
  by (simp add: step_def plain_def)

lemma walk_append:
  "walk fs cur (xs @ ys) = (case walk fs cur xs of Inl e \<Rightarrow> Inl e | Inr q \<Rightarrow> walk fs q ys)"
  by (induction xs arbitrary: cur) (auto split: option.splits node.splits)

lemma walk_snoc:
  "walk fs cur (xs @ [c]) =
     (case walk fs cur xs of
        Inl e \<Rightarrow> Inl e
      | Inr q \<Rightarrow> (case node_at fs q of
                    None \<Rightarrow> Inl ENOENT
                  | Some (File b) \<Rightarrow> Inl ENOTDIR
                  | Some Dir \<Rightarrow> Inr (step q c)))"
  by (simp add: walk_append split: sum.splits option.splits node.splits)

lemma dirs_above_root [simp]: "dirs_above fs []"
  by (simp add: dirs_above_def)

lemma dirs_above_step:
  assumes "dirs_above fs cur" and "node_at fs cur = Some Dir"
  shows "dirs_above fs (step cur c)"
proof -
  have a: "dirs_above fs (cur @ [c])"
    unfolding dirs_above_def
  proof (intro allI impI)
    fix k assume "k < length (cur @ [c])"
    then have "k < length cur \<or> k = length cur" by auto
    then show "node_at fs (take k (cur @ [c])) = Some Dir"
      using assms by (auto simp: dirs_above_def)
  qed
  have b: "dirs_above fs (butlast cur)"
    unfolding dirs_above_def
  proof (intro allI impI)
    fix k assume k: "k < length (butlast cur)"
    then have "take k (butlast cur) = take k cur" by (simp add: take_butlast)
    then show "node_at fs (take k (butlast cur)) = Some Dir"
      using assms(1) k by (simp add: dirs_above_def)
  qed
  show ?thesis using a b assms(1) by (simp add: step_def)
qed

lemma walk_dirs_above:
  "walk fs cur cs = Inr q \<Longrightarrow> dirs_above fs cur \<Longrightarrow> dirs_above fs q"
proof (induction cs arbitrary: cur)
  case Nil
  then show ?case by simp
next
  case (Cons c cs)
  then show ?case
    by (auto split: option.splits node.splits intro: dirs_above_step)
qed

lemma walk_mono:
  "walk fs cur cs = Inr q \<Longrightarrow> dirs_above fs cur \<Longrightarrow> keeps_dirs fs fs' \<Longrightarrow>
     walk fs' cur cs = Inr q"
proof (induction cs arbitrary: cur)
  case Nil
  then show ?case by simp
next
  case (Cons c cs)
  from Cons.prems(1) have d: "node_at fs cur = Some Dir"
    by (auto split: option.splits node.splits)
  then have d': "node_at fs' cur = Some Dir"
    using Cons.prems by (simp add: keeps_dirs_def)
  have "walk fs (step cur c) cs = Inr q" using Cons.prems(1) d by simp
  then have "walk fs' (step cur c) cs = Inr q"
    using Cons.IH Cons.prems d dirs_above_step by blast
  then show ?case using d' by simp
qed

lemma keeps_dirs_above:
  assumes "keeps_dirs fs fs'" and "dirs_above fs k"
  shows "dirs_above fs' k"
  unfolding dirs_above_def
proof (intro allI impI)
  fix i assume i: "i < length k"
  have "dirs_above fs (take i k)"
    using assms(2) i by (auto simp: dirs_above_def min_def)
  moreover have "node_at fs (take i k) = Some Dir"
    using assms(2) i by (simp add: dirs_above_def)
  ultimately show "node_at fs' (take i k) = Some Dir"
    using assms(1) by (simp add: keeps_dirs_def)
qed

lemma keeps_dirs_trans:
  assumes "keeps_dirs fs fs'" and "keeps_dirs fs' fs''"
  shows "keeps_dirs fs fs''"
  unfolding keeps_dirs_def
proof (intro allI impI)
  fix k assume k: "dirs_above fs k \<and> node_at fs k = Some Dir"
  then have "dirs_above fs' k" using assms(1) keeps_dirs_above by blast
  moreover have "node_at fs' k = Some Dir" using assms(1) k by (simp add: keeps_dirs_def)
  ultimately show "node_at fs'' k = Some Dir" using assms(2) by (simp add: keeps_dirs_def)
qed

lemma keeps_dirs_set_node:
  "node_at fs p \<noteq> Some Dir \<Longrightarrow> keeps_dirs fs (set_node fs p n)"
  by (auto simp: keeps_dirs_def node_at_set_node)

lemma under_nondir:
  assumes "node_at fs p \<noteq> Some Dir" and "dirs_above fs k" and "node_at fs k = Some Dir"
  shows "\<not> is_under p k"
proof
  assume "is_under p k"
  then have u: "take (length p) k = p" by (simp only: is_under_def)
  have "length (take (length p) k) = length p" by (simp only: u)
  then have le: "length p \<le> length k" by simp
  show False
  proof (cases "length p = length k")
    case True
    have "take (length k) k = p" using u by (simp only: True)
    then have "k = p" by simp
    then show False using assms(1,3) by blast
  next
    case False
    then have "length p < length k" using le by simp
    then have "node_at fs (take (length p) k) = Some Dir"
      using assms(2) by (simp only: dirs_above_def)
    then show False using assms(1) by (simp only: u)
  qed
qed

lemma keeps_dirs_remove_tree:
  "node_at fs p \<noteq> Some Dir \<Longrightarrow> keeps_dirs fs (remove_tree fs p)"
  using under_nondir by (auto simp: keeps_dirs_def node_at_remove_tree)

lemma namei_mono:
  "namei fs p = Inr q \<Longrightarrow> keeps_dirs fs fs' \<Longrightarrow> namei fs' p = Inr q"
  by (auto simp: namei_def split: if_splits intro: walk_mono)

section \<open>Validation\<close>

lemma validation_no_io:
  "fst (Write marshal d fs [] n v) =
     Some (Errorf ''missing collection - no place to save records'')"
  "snd (Write marshal d fs [] n v) = (d, fs)"
  "c \<noteq> [] \<Longrightarrow> fst (Write marshal d fs c [] v) =
     Some (Errorf ''missing resources - unable to save record (no name)'')"
  "snd (Write marshal d fs c [] v) = (d, fs)"
  "Read unmarshal d fs [] n v =
     (Some (Errorf ''missing collection - no place to read record''), v)"
  "c \<noteq> [] \<Longrightarrow> Read unmarshal d fs c [] v =
     (Some (Errorf ''missing resources - no place to read record''), v)"
  "ReadAll d fs [] = Inl (Errorf ''missing collection - no place to read records'')"
  by (simp_all add: Write_def Read_def ReadAll_def)

text \<open>
  Claim C2. Every call with an empty collection name is to return a validation
  error at once, without file system I/O. \<open>Write\<close>, \<open>Read\<close> and \<open>ReadAll\<close> do
  (lemma \<open>validation_no_io\<close>); \<open>Delete\<close> has no such check. On the store \<open>db\<close>
  holding the collection \<open>users\<close>, \<open>Delete\<close> with an empty collection and an empty
  record name resolves its target to the store root, removes the whole store and
  returns \<open>nil\<close>; with the record name \<open>users\<close> it removes that collection.
\<close>

theorem Delete_empty_collection_runs:
  "fst (Delete demo_store users_fs [] []) = None \<and>
   snd (snd (Delete demo_store users_fs [] [])) = [] \<and>
   fst (Delete demo_store users_fs [] ''users'') = None \<and>
   snd (snd (Delete demo_store users_fs [] ''users'')) = [([''db''], Dir)]"
  by (simp add: Delete_def Let_def users_fs_def path_defs fs_defs demo_defs)

section \<open>A successful write\<close>

lemma namei_suffix:
  "CHR ''/'' \<notin> set s \<Longrightarrow> G @ s \<noteq> [] \<Longrightarrow>
     namei fs (G @ s) = walk fs [] (butlast (split_sep G) @ [last (split_sep G) @ s])"
  by (simp add: namei_def split_sep_append_plain)

lemma walk_snoc_Inr:
  "walk fs cur (xs @ [c]) = Inr p \<Longrightarrow>
     \<exists>q. walk fs cur xs = Inr q \<and> node_at fs q = Some Dir \<and> p = step q c"
  by (auto simp: walk_snoc split: sum.splits option.splits node.splits)

lemma walk_snoc_dir:
  "walk fs cur xs = Inr q \<Longrightarrow> node_at fs q = Some Dir \<Longrightarrow>
     walk fs cur (xs @ [c]) = Inr (step q c)"
  by (simp add: walk_snoc)

lemma keeps_dirs_dir:
  "keeps_dirs fs fs' \<Longrightarrow> dirs_above fs k \<Longrightarrow> node_at fs k = Some Dir \<Longrightarrow>
     node_at fs' k = Some Dir"
  by (simp add: keeps_dirs_def)

lemma plain_tmp: "CHR ''/'' \<notin> set c \<Longrightarrow> plain (c @ ''.json.tmp'')"
  by (auto simp: plain_def append_eq_Cons_conv)

lemma write_then_rename:
  assumes w: "os_write_file fs1 (G @ ''.json.tmp'') b = Inr fs2"
    and r: "os_rename fs2 (G @ ''.json.tmp'') (G @ ''.json'') = Inr fs3"
  shows "os_read_file fs3 (G @ ''.json'') = Inr b \<and>
         os_stat fs3 (G @ ''.json.tmp'') = Inl ENOENT"
proof -
  define xs where "xs = butlast (split_sep G)"
  define c where "c = last (split_sep G)"
  have "c \<in> set (split_sep G)" by (simp add: c_def)
  then have nc: "CHR ''/'' \<notin> set c" by (rule split_sep_no_sep)
  have pf: "plain (c @ ''.json'')" and pt: "plain (c @ ''.json.tmp'')"
    using nc by (simp_all add: plain_json plain_tmp)
  have nt: "namei fs (G @ ''.json.tmp'') = walk fs [] (xs @ [c @ ''.json.tmp''])" for fs
    by (simp add: namei_suffix xs_def c_def)
  have nf: "namei fs (G @ ''.json'') = walk fs [] (xs @ [c @ ''.json''])" for fs
    by (simp add: namei_suffix xs_def c_def)
  from w obtain t where t: "namei fs1 (G @ ''.json.tmp'') = Inr t"
    and tn: "node_at fs1 t \<noteq> Some Dir" and fs2: "fs2 = set_node fs1 t (File b)"
    by (auto simp: os_write_file_def split: sum.splits option.splits node.splits)
  from t have "walk fs1 [] (xs @ [c @ ''.json.tmp'']) = Inr t" by (simp only: nt)
  from walk_snoc_Inr [OF this]
  obtain q where q: "walk fs1 [] xs = Inr q" and qd: "node_at fs1 q = Some Dir"
    and tq0: "t = step q (c @ ''.json.tmp'')" by blast
  have tq: "t = q @ [c @ ''.json.tmp'']" using tq0 pt by simp
  have qa: "dirs_above fs1 q" by (rule walk_dirs_above [OF q]) simp
  have k12: "keeps_dirs fs1 fs2" using tn by (simp add: fs2 keeps_dirs_set_node)
  have q2: "walk fs2 [] xs = Inr q" by (rule walk_mono [OF q _ k12]) simp
  have qd2: "node_at fs2 q = Some Dir" by (rule keeps_dirs_dir [OF k12 qa qd])
  have qa2: "dirs_above fs2 q" by (rule keeps_dirs_above [OF k12 qa])
  have t2: "namei fs2 (G @ ''.json.tmp'') = Inr t"
    using q2 qd2 pt by (simp add: nt tq walk_snoc_dir)
  define f where "f = q @ [c @ ''.json'']"
  have f2: "namei fs2 (G @ ''.json'') = Inr f"
    using q2 qd2 pf by (simp add: nf f_def walk_snoc_dir)
  have ft: "f \<noteq> t" by (simp add: f_def tq)
  have tne: "t \<noteq> []" and fne: "f \<noteq> []" by (simp_all add: tq f_def)
  have tb: "node_at fs2 t = Some (File b)" using tne by (simp add: fs2 node_at_set_node)
  have r': "(case node_at fs2 f of
               None \<Rightarrow> Inr (set_node (remove_tree fs2 t) f (File b))
             | Some Dir \<Rightarrow> Inl EEXIST
             | Some (File x) \<Rightarrow> Inr (set_node (remove_tree fs2 t) f (File b))) = Inr fs3"
    using r ft by (simp add: os_rename_def t2 f2 tb split: option.splits node.splits)
  have fnd: "node_at fs2 f \<noteq> Some Dir"
    using r' by (auto split: option.splits node.splits)
  have fs3: "fs3 = set_node (remove_tree fs2 t) f (File b)"
    using r' by (auto split: option.splits node.splits)
  have "node_at fs2 t \<noteq> Some Dir" by (simp add: tb)
  then have ka: "keeps_dirs fs2 (remove_tree fs2 t)" by (rule keeps_dirs_remove_tree)
  have "node_at (remove_tree fs2 t) f \<noteq> Some Dir"
    using fnd fne by (simp add: node_at_remove_tree)
  then have "keeps_dirs (remove_tree fs2 t) fs3" by (simp add: fs3 keeps_dirs_set_node)
  then have k23: "keeps_dirs fs2 fs3" by (rule keeps_dirs_trans [OF ka])
  have q3: "walk fs3 [] xs = Inr q" by (rule walk_mono [OF q2 _ k23]) simp
  have qd3: "node_at fs3 q = Some Dir" by (rule keeps_dirs_dir [OF k23 qa2 qd2])
  have f3: "namei fs3 (G @ ''.json'') = Inr f"
    using q3 qd3 pf by (simp add: nf f_def walk_snoc_dir)
  have t3: "namei fs3 (G @ ''.json.tmp'') = Inr t"
    using q3 qd3 pt by (simp add: nt tq walk_snoc_dir)
  have "node_at fs3 f = Some (File b)" using fne by (simp add: fs3 node_at_set_node)
  moreover have "node_at fs3 t = None"
    using ft tne by (simp add: fs3 node_at_set_node node_at_remove_tree)
  ultimately show ?thesis by (simp add: os_read_file_def os_stat_def f3 t3)
qed


lemma Write_success:
  assumes "Write marshal d fs collection resources v = (None, d', fs')"
  shows "\<exists>b fs1 fs2.
     marshal v = Inr b \<and>
     os_mkdir_all fs (Join [dir d, collection]) = (None, fs1) \<and>
     os_write_file fs1 (Join [Join [dir d, collection], resources @ ''.json''] @ ''.tmp'')
       (b @ [CHR 0x0A]) = Inr fs2 \<and>
     os_rename fs2 (Join [Join [dir d, collection], resources @ ''.json''] @ ''.tmp'')
       (Join [Join [dir d, collection], resources @ ''.json'']) = Inr fs' \<and>
     os_read_file fs' (Join [Join [dir d, collection], resources @ ''.json'']) =
       Inr (b @ [CHR 0x0A]) \<and>
     os_stat fs' (Join [Join [dir d, collection], resources @ ''.json''] @ ''.tmp'') =
       Inl ENOENT"
proof -
  obtain G where G: "Join [Join [dir d, collection], resources @ ''.json''] = G @ ''.json''"
    using Join_json by blast
  from assms obtain b fs1 fs2 where m: "marshal v = Inr b"
    and k: "os_mkdir_all fs (Join [dir d, collection]) = (None, fs1)"
    and w: "os_write_file fs1 (G @ ''.json.tmp'') (b @ [CHR 0x0A]) = Inr fs2"
    and r: "os_rename fs2 (G @ ''.json.tmp'') (G @ ''.json'') = Inr fs'"
    by (auto simp: Write_def Let_def G split: if_splits sum.splits prod.splits option.splits)
  from write_then_rename [OF w r] m k w r show ?thesis
    by (auto simp: G)
qed


lemma write_John:
  "Write demo_marshal demo_store [] ''users'' ''John'' (Str ''hello'') =
   (None, \<lparr>dir = ''db'', mutexes = [''users'' \<mapsto> 0], allocated = 1\<rparr>,
    [([''db''], Dir), ([''db'', ''users''], Dir),
     ([''db'', ''users'', ''John.json''], File (CHR 0x22 # ''hello'' @ [CHR 0x22, CHR 0x0A]))])"
  by (simp add: Write_def Let_def path_defs fs_defs demo_defs)



section \<open>Write, then read\<close>

lemma Write_success_names:
  "Write marshal d fs collection resources v = (None, d', fs') \<Longrightarrow>
     collection \<noteq> [] \<and> resources \<noteq> [] \<and> dir d' = dir d"
  using Write_driver [of marshal d fs collection resources v]
  by (auto simp: Write_def getOrCreateMutex_dir split: if_splits)

lemma Join_ne: "a \<noteq> [] \<or> b \<noteq> [] \<Longrightarrow> Join [a, b, c] \<noteq> []"
  by (auto simp: Join_two Join_three)

text \<open>
  Appending a suffix to a path whose last element is a plain name commutes with
  cleaning: the suffix only lengthens that element.
\<close>

lemma Clean_suffix_last:
  assumes "p \<noteq> []" and "plain (last (split_sep p))" and "CHR ''/'' \<notin> set s"
  shows "Clean (p @ s) = Clean p @ s"
proof -
  define xs where "xs = butlast (split_sep p)"
  define l where "l = last (split_sep p)"
  define r where "r = is_rooted p"
  have sp: "split_sep p = xs @ [l]" by (simp add: xs_def l_def)
  have sps: "split_sep (p @ s) = xs @ [l @ s]"
    using assms(3) by (simp add: split_sep_append_plain xs_def l_def)
  have pl: "plain l" using assms(2) by (simp add: l_def)
  then have pls: "plain (l @ s)" using assms(3) by (rule plain_append)
  have "Clean p = render_pref r (foldl (clean_step r) [] xs) @ l"
    using assms(1) pl by (simp add: Clean_parts r_def sp render_snoc)
  moreover have "Clean (p @ s) = render_pref r (foldl (clean_step r) [] xs) @ l @ s"
    using assms(1) pls by (simp add: Clean_parts r_def sps render_snoc)
  ultimately show ?thesis by simp
qed

lemma last_split_sep_append:
  "last (split_sep (a @ CHR ''/'' # n)) = last (split_sep n)"
  by (simp add: split_sep_append_sep)

lemma Join_suffix_last:
  assumes "a \<noteq> [] \<or> b \<noteq> []" and "plain (last (split_sep n))" and "CHR ''/'' \<notin> set s"
  shows "Join [a, b, n @ s] = Join [a, b, n] @ s"
proof (cases "a = []")
  case True
  have "Clean ((b @ CHR ''/'' # n) @ s) = Clean (b @ CHR ''/'' # n) @ s"
    using assms(2,3) by (intro Clean_suffix_last) (simp_all add: last_split_sep_append)
  then show ?thesis using True assms(1) by (simp add: Join_two Join_three)
next
  case False
  have "Clean ((a @ CHR ''/'' # b @ CHR ''/'' # n) @ s) =
      Clean (a @ CHR ''/'' # b @ CHR ''/'' # n) @ s"
    using assms(2,3) by (intro Clean_suffix_last) (simp_all add: last_split_sep_append)
  then show ?thesis using False by (simp add: Join_three)
qed

lemma record_path_json:
  "collection \<noteq> [] \<Longrightarrow> plain (last (split_sep resources)) \<Longrightarrow>
     Join [Join [r, collection], resources @ ''.json''] =
       Join [r, collection, resources] @ ''.json''"
  by (simp add: Join_nested Join_suffix_last)

lemma stat_of_json:
  assumes "os_read_file fs (p @ ''.json'') = Inr b" and "p \<noteq> []"
  shows "\<exists>m. stat fs p = Inr m"
proof -
  define xs where "xs = butlast (split_sep p)"
  define c where "c = last (split_sep p)"
  from assms(1) obtain f where f: "namei fs (p @ ''.json'') = Inr f"
    and fb: "node_at fs f = Some (File b)"
    by (auto simp: os_read_file_def split: sum.splits option.splits node.splits)
  have "walk fs [] (xs @ [c @ ''.json'']) = Inr f"
    using f by (simp add: namei_suffix xs_def c_def)
  from walk_snoc_Inr [OF this]
  obtain q where q: "walk fs [] xs = Inr q" and qd: "node_at fs q = Some Dir" by blast
  have "split_sep p = xs @ [c]" by (simp add: xs_def c_def)
  then have "namei fs p = Inr (step q c)"
    using assms(2) q qd by (simp add: namei_def walk_snoc_dir)
  then have a: "os_stat fs p = Inl ENOENT \<or> (\<exists>m. os_stat fs p = Inr m)"
    by (simp add: os_stat_def split: option.splits)
  have j: "os_stat fs (p @ ''.json'') = Inr ModeRegular"
    using f fb by (simp add: os_stat_def mode_of_def)
  from a show ?thesis
  proof
    assume "os_stat fs p = Inl ENOENT"
    then show ?thesis using j by (simp add: stat_def)
  next
    assume "\<exists>m. os_stat fs p = Inr m"
    then show ?thesis by (auto simp: stat_def)
  qed
qed

lemma Read_of_file:
  assumes "collection \<noteq> []" and "resources \<noteq> []"
    and "os_read_file fs (Join [dir d, collection, resources] @ ''.json'') = Inr b"
  shows "Read unmarshal d fs collection resources v = unmarshal b v"
proof -
  have "Join [dir d, collection, resources] \<noteq> []" using assms(1) by (simp add: Join_ne)
  then obtain m where "stat fs (Join [dir d, collection, resources]) = Inr m"
    using stat_of_json assms(3) by blast
  then show ?thesis using assms by (simp add: Read_def Let_def)
qed

text \<open>
  Claim C1, as amended. Take a record name whose last path element (what follows
  the last separator) is a plain name, that is not empty, not \<open>.\<close> and not \<open>..\<close>,
  and a value that the codec itself carries round: decoding its encoding followed
  by the newline into the given destination succeeds and leaves the value. Then
  after a successful \<open>Write\<close>, a \<open>Read\<close> of the same collection and name on the
  resulting state returns no error and leaves the destination equal to the value
  written. (A successful \<open>Write\<close> implies a collection name that is not empty.)
\<close>

theorem Write_Read_round_trip:
  assumes "plain (last (split_sep resources))"
    and "Write marshal d fs collection resources v = (None, d', fs')"
    and "\<forall>b. marshal v = Inr b \<longrightarrow> unmarshal (b @ [CHR 0x0A]) dest = (None, v)"
  shows "Read unmarshal d' fs' collection resources dest = (None, v)"
proof -
  from Write_success_names [OF assms(2)]
  have c: "collection \<noteq> []" and n: "resources \<noteq> []" and dd: "dir d' = dir d" by simp_all
  from Write_success [OF assms(2)] obtain b where m: "marshal v = Inr b"
    and rf: "os_read_file fs' (Join [Join [dir d, collection], resources @ ''.json'']) =
       Inr (b @ [CHR 0x0A])" by blast
  have "os_read_file fs' (Join [dir d', collection, resources] @ ''.json'') =
      Inr (b @ [CHR 0x0A])"
    using rf c assms(1) by (simp add: record_path_json dd)
  then have "Read unmarshal d' fs' collection resources dest =
      unmarshal (b @ [CHR 0x0A]) dest"
    by (rule Read_of_file [OF c n])
  then show ?thesis using assms(3) m by simp
qed

lemma demo_round_trip:
  "\<forall>b. demo_marshal (Str s) = Inr b \<longrightarrow>
       demo_unmarshal (b @ [CHR 0x0A]) dest = (None, Str s)"
  by (simp add: demo_marshal_def demo_unmarshal_def butlast_append)

lemma write_nested_name:
  "Write demo_marshal demo_store [([''db''], Dir), ([''db'', ''users''], Dir),
      ([''db'', ''users'', ''a''], Dir)] ''users'' ''a/b'' (Str ''hello'') =
   (None, \<lparr>dir = ''db'', mutexes = [''users'' \<mapsto> 0], allocated = 1\<rparr>,
    [([''db''], Dir), ([''db'', ''users''], Dir), ([''db'', ''users'', ''a''], Dir),
     ([''db'', ''users'', ''a'', ''b.json''],
      File (CHR 0x22 # ''hello'' @ [CHR 0x22, CHR 0x0A]))])"
  by (simp add: Write_def Let_def path_defs fs_defs demo_defs)

theorem Write_Read_round_trip_witness:
  "plain (last (split_sep ''John'')) \<and>
   Read demo_unmarshal \<lparr>dir = ''db'', mutexes = [''users'' \<mapsto> 0], allocated = 1\<rparr>
    [([''db''], Dir), ([''db'', ''users''], Dir),
     ([''db'', ''users'', ''John.json''], File (CHR 0x22 # ''hello'' @ [CHR 0x22, CHR 0x0A]))]
    ''users'' ''John'' (Str []) = (None, Str ''hello'') \<and>
   plain (last (split_sep ''a/b'')) \<and>
   Read demo_unmarshal \<lparr>dir = ''db'', mutexes = [''users'' \<mapsto> 0], allocated = 1\<rparr>
    [([''db''], Dir), ([''db'', ''users''], Dir), ([''db'', ''users'', ''a''], Dir),
     ([''db'', ''users'', ''a'', ''b.json''],
      File (CHR 0x22 # ''hello'' @ [CHR 0x22, CHR 0x0A]))]
    ''users'' ''a/b'' (Str []) = (None, Str ''hello'')"
proof -
  have p: "plain (last (split_sep ''John''))" by (simp add: plain_def)
  have q: "plain (last (split_sep ''a/b''))" by (simp add: plain_def)
  from Write_Read_round_trip [OF p write_John demo_round_trip]
    Write_Read_round_trip [OF q write_nested_name demo_round_trip] p q
  show ?thesis by simp
qed

text \<open>
  Claim C1 as stated fails in two ways. For the record name \<open>.\<close>, which is not
  empty, \<open>Write\<close> stores the record in \<open>db/users/..json\<close> and succeeds, while \<open>Read\<close>
  joins the names to \<open>db/users\<close>, finds that directory and then opens
  \<open>db/users.json\<close>, which does not exist. And a value that can be encoded need not
  come back from its encoding: for the struct with an unexported field, \<open>Write\<close>
  and \<open>Read\<close> both succeed and the destination ends up without the unexported
  field's content.
\<close>

theorem Write_Read_dot_counterexample:
  "''users'' \<noteq> [] \<and> ''.'' \<noteq> [] \<and>
   demo_marshal (Str ''hello'') = Inr (CHR 0x22 # ''hello'' @ [CHR 0x22]) \<and>
   demo_unmarshal ((CHR 0x22 # ''hello'' @ [CHR 0x22]) @ [CHR 0x0A]) (Str []) =
     (None, Str ''hello'') \<and>
   fst (Write demo_marshal demo_store [] ''users'' ''.'' (Str ''hello'')) = None \<and>
   Read demo_unmarshal (fst (snd (Write demo_marshal demo_store [] ''users'' ''.'' (Str ''hello''))))
     (snd (snd (Write demo_marshal demo_store [] ''users'' ''.'' (Str ''hello''))))
     ''users'' ''.'' (Str []) = (Some (OSError ENOENT), Str []) \<and>
   fst (Write struct_marshal demo_store [] ''users'' ''John'' (Struct ''John'' ''secret'')) =
     None \<and>
   Read struct_unmarshal
     (fst (snd (Write struct_marshal demo_store [] ''users'' ''John'' (Struct ''John'' ''secret''))))
     (snd (snd (Write struct_marshal demo_store [] ''users'' ''John'' (Struct ''John'' ''secret''))))
     ''users'' ''John'' (Struct [] []) = (None, Struct ''John'' []) \<and>
   Struct ''John'' [] \<noteq> Struct ''John'' ''secret''"
  by (simp add: Write_def Read_def Let_def path_defs fs_defs demo_defs)

section \<open>Write when the value cannot be encoded\<close>

lemma mkdir_walk_nodes:
  "mkdir_walk fs cur cs = (e, fs1) \<Longrightarrow>
     node_at fs1 p = node_at fs p \<or> (node_at fs p = None \<and> node_at fs1 p = Some Dir)"
proof (induction cs arbitrary: fs cur)
  case Nil
  then show ?case by simp
next
  case (Cons c cs)
  show ?case
  proof (cases "node_at fs (step cur c)")
    case None
    then have ne: "step cur c \<noteq> []" by auto
    show ?thesis
    proof (cases "name_max < length c")
      case True
      then show ?thesis using Cons.prems None by simp
    next
      case False
      with Cons.prems None
      have "mkdir_walk (set_node fs (step cur c) Dir) (step cur c) cs = (e, fs1)" by simp
      from Cons.IH [OF this]
      show ?thesis using None ne by (auto simp: node_at_set_node split: if_splits)
    qed
  next
    case (Some n)
    with Cons show ?thesis by (cases n) auto
  qed
qed

lemma os_mkdir_all_nodes:
  "os_mkdir_all fs p = (e, fs1) \<Longrightarrow>
     node_at fs1 q = node_at fs q \<or> (node_at fs q = None \<and> node_at fs1 q = Some Dir)"
  by (auto simp: os_mkdir_all_def split: if_splits dest: mkdir_walk_nodes)

lemma os_mkdir_all_files:
  assumes "os_mkdir_all fs p = (e, fs1)"
  shows "(node_at fs1 q = Some (File b)) = (node_at fs q = Some (File b))"
  using os_mkdir_all_nodes [OF assms, of q] by auto

lemma mkdir_walk_made:
  "mkdir_walk fs cur cs = (None, fs1) \<Longrightarrow> node_at fs cur = Some Dir \<Longrightarrow>
     \<exists>q. walk fs1 cur cs = Inr q \<and> node_at fs1 q = Some Dir"
proof (induction cs arbitrary: fs cur)
  case Nil
  then show ?case by simp
next
  case (Cons c cs)
  have keep: "node_at fs1 cur = Some Dir"
    using mkdir_walk_nodes [OF Cons.prems(1), of cur] Cons.prems(2) by simp
  show ?case
  proof (cases "node_at fs (step cur c)")
    case None
    then have ne: "step cur c \<noteq> []" by auto
    from Cons.prems(1) None
    have m: "mkdir_walk (set_node fs (step cur c) Dir) (step cur c) cs = (None, fs1)"
      by (simp split: if_splits)
    have "node_at (set_node fs (step cur c) Dir) (step cur c) = Some Dir"
      using ne by (simp add: node_at_set_node)
    from Cons.IH [OF m this] show ?thesis using keep by simp
  next
    case (Some n)
    then have n: "n = Dir" using Cons.prems(1) by (cases n) simp_all
    then have "mkdir_walk fs (step cur c) cs = (None, fs1)"
      using Cons.prems(1) Some by simp
    from Cons.IH [OF this] show ?thesis using keep Some n by simp
  qed
qed

lemma os_mkdir_all_made:
  "os_mkdir_all fs p = (None, fs1) \<Longrightarrow> os_stat fs1 p = Inr ModeDir"
  using mkdir_walk_made [of fs "[]" "split_sep p" fs1]
  by (auto simp: os_mkdir_all_def os_stat_def namei_def mode_of_def split: if_splits)

text \<open>
  Claim C4, as amended. \<open>Write\<close> calls \<open>os.MkdirAll\<close> before it encodes the value.
  So when the names are not empty, the directory creation succeeds and the encoding
  fails, \<open>Write\<close> returns the encoding error and leaves the file system as
  \<open>os.MkdirAll\<close> left it: the collection directory exists, created where it was
  missing, and every regular file is as it was, none added, none changed.
\<close>

theorem Write_marshal_failure:
  assumes "collection \<noteq> []" and "resources \<noteq> []" and "marshal v = Inl e"
    and "os_mkdir_all fs (Join [dir d, collection]) = (None, fs')"
  shows "fst (Write marshal d fs collection resources v) = Some e \<and>
         snd (snd (Write marshal d fs collection resources v)) = fs' \<and>
         os_stat fs' (Join [dir d, collection]) = Inr ModeDir \<and>
         (\<forall>q b. (node_at fs' q = Some (File b)) = (node_at fs q = Some (File b)))"
  using assms os_mkdir_all_made [OF assms(4)] os_mkdir_all_files [OF assms(4)]
  by (simp add: Write_def Let_def)

lemma mkdir_db_users:
  "os_mkdir_all [] (Join [dir demo_store, ''users'']) =
     (None, [([''db''], Dir), ([''db'', ''users''], Dir)])"
  by (simp add: path_defs fs_defs demo_defs)

theorem Write_marshal_failure_witness:
  "fst (Write demo_marshal demo_store [] ''users'' ''x'' Unencodable) =
     Some (CodecError ''json: unsupported type'') \<and>
   snd (snd (Write demo_marshal demo_store [] ''users'' ''x'' Unencodable)) =
     [([''db''], Dir), ([''db'', ''users''], Dir)]"
  using Write_marshal_failure [where collection = "''users''" and resources = "''x''"
      and marshal = demo_marshal and v = Unencodable and d = demo_store and fs = "[]"
      and e = "CodecError ''json: unsupported type''"
      and fs' = "[([''db''], Dir), ([''db'', ''users''], Dir)]"] mkdir_db_users
  by (simp add: demo_marshal_def)

text \<open>
  Claim C4 as stated fails: on an empty tree, writing a value that cannot be
  encoded into collection \<open>users\<close> returns the encoding error, and the directory
  \<open>db/users\<close>, which did not exist before, exists afterwards.
\<close>

theorem Write_marshal_failure_counterexample:
  "demo_marshal Unencodable = Inl (CodecError ''json: unsupported type'') \<and>
   fst (Write demo_marshal demo_store [] ''users'' ''x'' Unencodable) =
     Some (CodecError ''json: unsupported type'') \<and>
   os_stat [] ''db/users'' = Inl ENOENT \<and>
   os_stat (snd (snd (Write demo_marshal demo_store [] ''users'' ''x'' Unencodable)))
     ''db/users'' = Inr ModeDir \<and>
   snd (snd (Write demo_marshal demo_store [] ''users'' ''x'' Unencodable)) \<noteq> []"
  by (simp add: Write_def Let_def path_defs fs_defs demo_defs)

section \<open>Read\<close>

text \<open>
  Claim C5, as amended. For names that are not empty, \<open>Read\<close> takes as the record's
  path what \<open>filepath.Join\<close> makes of the root, the collection and the record name.
  It stats that path and, only if it does not exist, the path with \<open>.json\<close>
  appended. If neither exists it returns the not-found error; any other failure of
  the first stat is returned as it is. Otherwise it reads the whole file at the
  path with \<open>.json\<close> appended; a failure to read is returned. In all these failures
  the destination is left untouched. After a successful read the bytes and the
  destination go to the decoder, and \<open>Read\<close> returns the decoder's error, if any,
  and leaves the destination as the decoder left it.
\<close>

theorem Read_resolution:
  assumes "collection \<noteq> []" and "resources \<noteq> []"
  shows "(os_stat fs (Join [dir d, collection, resources]) = Inl ENOENT \<and>
          os_stat fs (Join [dir d, collection, resources] @ ''.json'') = Inl ENOENT \<longrightarrow>
            Read unmarshal d fs collection resources v = (Some (OSError ENOENT), v)) \<and>
         (os_stat fs (Join [dir d, collection, resources]) = Inl e \<and> e \<noteq> ENOENT \<longrightarrow>
            Read unmarshal d fs collection resources v = (Some (OSError e), v)) \<and>
         (os_stat fs (Join [dir d, collection, resources]) = Inr m \<or>
          os_stat fs (Join [dir d, collection, resources]) = Inl ENOENT \<and>
          os_stat fs (Join [dir d, collection, resources] @ ''.json'') = Inr m \<longrightarrow>
            Read unmarshal d fs collection resources v =
              (case os_read_file fs (Join [dir d, collection, resources] @ ''.json'') of
                 Inl e \<Rightarrow> (Some (OSError e), v)
               | Inr b \<Rightarrow> unmarshal b v))"
  using assms by (auto simp: Read_def Let_def stat_def)

lemma users_fs_John:
  "Join [dir demo_store, ''users'', ''John''] = ''db/users/John'' \<and>
   os_stat users_fs ''db/users/John'' = Inl ENOENT \<and>
   os_stat users_fs (''db/users/John'' @ ''.json'') = Inr ModeRegular \<and>
   os_read_file users_fs (''db/users/John'' @ ''.json'') =
     Inr (CHR 0x22 # ''hello'' @ [CHR 0x22, CHR 0x0A])"
  by (simp add: users_fs_def path_defs fs_defs demo_defs)

lemma users_fs_Paul:
  "Join [dir demo_store, ''users'', ''Paul''] = ''db/users/Paul'' \<and>
   os_stat users_fs ''db/users/Paul'' = Inl ENOENT \<and>
   os_stat users_fs (''db/users/Paul'' @ ''.json'') = Inr ModeRegular \<and>
   os_read_file users_fs (''db/users/Paul'' @ ''.json'') = Inr ''{''"
  by (simp add: users_fs_def path_defs fs_defs demo_defs)

theorem Read_resolution_witness:
  "''users'' \<noteq> [] \<and> ''John'' \<noteq> [] \<and>
   Read demo_unmarshal demo_store users_fs ''users'' ''John'' (Str []) =
     (None, Str ''hello'') \<and>
   Read demo_unmarshal demo_store users_fs ''users'' ''Paul'' (Str ''before'') =
     (Some (CodecError ''invalid character''), Str ''before'')"
  using Read_resolution [where collection = "''users''" and resources = "''John''"
      and fs = users_fs and d = demo_store and unmarshal = demo_unmarshal and v = "Str []"
      and m = ModeRegular and e = ENOENT] users_fs_John
    Read_resolution [where collection = "''users''" and resources = "''Paul''"
      and fs = users_fs and d = demo_store and unmarshal = demo_unmarshal
      and v = "Str ''before''" and m = ModeRegular and e = ENOENT] users_fs_Paul
  by (simp add: demo_unmarshal_def)

text \<open>
  Claim C5 as stated fails for the record name \<open>.\<close>: the bare path
  \<open>db/users/.\<close> exists, the path with \<open>.json\<close> appended, \<open>db/users/..json\<close>, is a
  file with content the decoder accepts, and still \<open>Read\<close> returns the not-found
  error, because it cleans the joined path to \<open>db/users\<close> and opens
  \<open>db/users.json\<close>.
\<close>

theorem Read_dot_counterexample:
  "''users'' \<noteq> [] \<and> ''.'' \<noteq> [] \<and>
   os_stat dot_fs ''db/users/.'' = Inr ModeDir \<and>
   os_read_file dot_fs ''db/users/..json'' = Inr (CHR 0x22 # ''dot'' @ [CHR 0x22, CHR 0x0A]) \<and>
   demo_unmarshal (CHR 0x22 # ''dot'' @ [CHR 0x22, CHR 0x0A]) (Str []) = (None, Str ''dot'') \<and>
   Read demo_unmarshal demo_store dot_fs ''users'' ''.'' (Str []) =
     (Some (OSError ENOENT), Str [])"
  by (simp add: Read_def Let_def dot_fs_def path_defs fs_defs demo_defs)

section \<open>ReadAll\<close>

lemma valid_names_entry:
  assumes "valid_names fs" and "node_at fs (q @ [n]) \<noteq> None"
  shows "plain n"
proof -
  from assms(2) have "map_of fs (q @ [n]) \<noteq> None" by (simp add: node_at_def)
  then have "q @ [n] \<in> fst ` set fs" by (simp add: map_of_eq_None_iff)
  then obtain kn where "kn \<in> set fs" and "fst kn = q @ [n]" by auto
  then have "list_all plain (q @ [n])"
    using assms(1) by (auto simp: valid_names_def list_all_iff)
  then show ?thesis by simp
qed

lemma os_read_dir_entries:
  assumes "os_read_dir fs p = Inr files" and "namei fs p = Inr q"
  shows "set files = {n. node_at fs (q @ [n]) \<noteq> None} \<and> distinct files \<and>
         node_at fs q = Some Dir"
proof -
  from assms have d: "node_at fs q = Some Dir"
    and f: "files = sort (remdups (map (\<lambda>kn. last (fst kn))
                     (filter (\<lambda>kn. fst kn \<noteq> [] \<and> butlast (fst kn) = q) fs)))"
    by (auto simp: os_read_dir_def split: option.splits node.splits)
  have "n \<in> set files \<longleftrightarrow> node_at fs (q @ [n]) \<noteq> None" for n
  proof -
    have "n \<in> set files \<longleftrightarrow> (\<exists>kn\<in>set fs. fst kn \<noteq> [] \<and> butlast (fst kn) = q \<and> last (fst kn) = n)"
      by (auto simp: f)
    also have "\<dots> \<longleftrightarrow> (\<exists>kn\<in>set fs. fst kn = q @ [n])"
      by (metis append_butlast_last_id butlast_snoc last_snoc snoc_eq_iff_butlast)
    also have "\<dots> \<longleftrightarrow> q @ [n] \<in> fst ` set fs" by force
    also have "\<dots> \<longleftrightarrow> node_at fs (q @ [n]) \<noteq> None"
      by (simp add: node_at_def map_of_eq_None_iff)
    finally show ?thesis .
  qed
  then show ?thesis using d by (auto simp: f)
qed

lemma namei_render:
  "norm_elems T \<Longrightarrow> namei fs (render r T) = walk fs [] (split_sep (render r T))"
  by (simp add: namei_def)

lemma namei_child:
  assumes "norm_elems T" and "namei fs (render r T) = Inr q"
    and "node_at fs q = Some Dir" and "plain n"
  shows "namei fs (render_pref r T @ n) = Inr (q @ [n])"
proof (cases "T = []")
  case True
  have n: "CHR ''/'' \<notin> set n" "n \<noteq> []" using assms(4) by (simp_all add: plain_def)
  have "q = []" using assms(2) True
    by (cases r) (simp_all add: render_def namei_def step_def)
  then show ?thesis using True assms(4) n
    by (cases r) (simp_all add: render_pref_def namei_def split_sep_single step_def [of "[]" "[]"])
next
  case False
  have n: "CHR ''/'' \<notin> set n" using assms(4) by (simp add: plain_def)
  have w: "walk fs [] (split_sep (render r T)) = Inr q"
    using assms(1,2) by (simp add: namei_def)
  have "split_sep (render_pref r T @ n) = split_sep (render r T) @ [n]"
    using False n by (simp add: render_pref_def split_sep_append_sep split_sep_single)
  then have "namei fs (render_pref r T @ n) = walk fs [] (split_sep (render r T) @ [n])"
    using False assms(1) by (simp add: namei_def render_pref_def)
  then show ?thesis using w assms(3,4) by (simp add: walk_snoc_dir)
qed

lemma Join_child:
  assumes "X \<noteq> []" and "plain n" and "namei fs (Clean X) = Inr q"
    and "node_at fs q = Some Dir"
  shows "namei fs (Join [Clean X, n]) = Inr (q @ [n])"
proof -
  have "Join [Clean X, n] = Clean (X @ CHR ''/'' # n)"
    using assms(1) by (simp add: Join_two Clean_after_Clean)
  then have j: "Join [Clean X, n] = render_pref (is_rooted X) (parts (is_rooted X) X) @ n"
    using assms(1,2) by (simp add: Clean_snoc_plain)
  have "namei fs (render (is_rooted X) (parts (is_rooted X) X)) = Inr q"
    using assms(1,3) by (simp add: Clean_parts)
  then show ?thesis
    unfolding j using assms(2,4) by (intro namei_child) simp_all
qed

lemma Join_two_Clean: "c \<noteq> [] \<Longrightarrow> \<exists>X. X \<noteq> [] \<and> Join [a, c] = Clean X"
  by (auto simp: Join_two)

lemma read_child:
  assumes "c \<noteq> []" and "plain n" and "namei fs (Join [a, c]) = Inr q"
    and "node_at fs q = Some Dir"
  shows "os_read_file fs (Join [Join [a, c], n]) =
     (case node_at fs (q @ [n]) of
        None \<Rightarrow> Inl ENOENT | Some Dir \<Rightarrow> Inl EISDIR | Some (File b) \<Rightarrow> Inr b)"
proof -
  obtain X where X: "X \<noteq> []" "Join [a, c] = Clean X"
    using assms(1) Join_two_Clean by blast
  have "namei fs (Join [Clean X, n]) = Inr (q @ [n])"
    using assms X by (intro Join_child) simp_all
  then show ?thesis by (simp add: os_read_file_def X)
qed

lemma read_files_ok:
  "list_all2 (\<lambda>n b. os_read_file fs (Join [cdir, n]) = Inr b) files bs \<Longrightarrow>
     read_files fs cdir files acc = Inr (acc @ bs)"
  by (induction files bs arbitrary: acc rule: list_all2_induct) simp_all

lemma read_files_fail:
  "\<forall>n\<in>set files. os_read_file fs (Join [cdir, n]) = Inl e \<or>
       (\<exists>b. os_read_file fs (Join [cdir, n]) = Inr b) \<Longrightarrow>
   \<exists>n\<in>set files. os_read_file fs (Join [cdir, n]) = Inl e \<Longrightarrow>
     read_files fs cdir files acc = Inl (OSError e)"
proof (induction files arbitrary: acc)
  case Nil
  then show ?case by simp
next
  case (Cons n files)
  show ?case
  proof (cases "os_read_file fs (Join [cdir, n])")
    case (Inl e')
    then show ?thesis using Cons.prems(1) by auto
  next
    case (Inr b)
    then have "\<exists>n\<in>set files. os_read_file fs (Join [cdir, n]) = Inl e"
      using Cons.prems(2) by auto
    then show ?thesis using Cons.IH Cons.prems(1) Inr by simp
  qed
qed


lemma list_all2_choice:
  "\<forall>n\<in>set xs. \<exists>b. P n b \<Longrightarrow> \<exists>bs. list_all2 P xs bs"
proof (induction xs)
  case Nil
  then show ?case by simp
next
  case (Cons x xs)
  then obtain b bs where "P x b" and "list_all2 P xs bs" by auto
  then have "list_all2 P (x # xs) (b # bs)" by simp
  then show ?case by blast
qed

lemma os_stat_dir:
  "os_stat fs p = Inr ModeDir \<Longrightarrow> namei fs p = Inr q \<Longrightarrow> node_at fs q = Some Dir"
  by (auto simp: os_stat_def mode_of_def split: option.splits node.splits)

lemma stat_found: "os_stat fs p = Inr m \<Longrightarrow> stat fs p = Inr m"
  by (simp add: stat_def)

text \<open>
  Claim C10. On a collection whose directory exists, in a tree of plain names:
  if no entry of the directory is itself a directory, \<open>ReadAll\<close> succeeds and
  returns one record for each entry, whatever its name, holding the raw content of
  that entry, so a leftover \<open>a.json.tmp\<close> is returned like any record; if some entry
  is a directory, the whole call fails with the read error of a directory and
  returns no list.
\<close>

theorem ReadAll_every_entry:
  assumes "collection \<noteq> []" and "valid_names fs"
    and "os_stat fs (Join [dir d, collection]) = Inr ModeDir"
    and "namei fs (Join [dir d, collection]) = Inr q"
  shows "((\<forall>n. node_at fs (q @ [n]) \<noteq> Some Dir) \<longrightarrow>
           (\<exists>names records. ReadAll d fs collection = Inr records \<and>
              distinct names \<and> set names = {n. node_at fs (q @ [n]) \<noteq> None} \<and>
              list_all2 (\<lambda>n b. node_at fs (q @ [n]) = Some (File b)) names records)) \<and>
         ((\<exists>n. node_at fs (q @ [n]) = Some Dir) \<longrightarrow>
           ReadAll d fs collection = Inl (OSError EISDIR))"
proof -
  define cdir where "cdir = Join [dir d, collection]"
  have qd: "node_at fs q = Some Dir"
    using assms(3,4) by (rule os_stat_dir)
  have nq: "namei fs cdir = Inr q" using assms(4) by (simp only: cdir_def)
  define files where "files = sort (remdups (map (\<lambda>kn. last (fst kn))
                     (filter (\<lambda>kn. fst kn \<noteq> [] \<and> butlast (fst kn) = q) fs)))"
  have rd: "os_read_dir fs cdir = Inr files"
    by (simp add: os_read_dir_def nq qd files_def)
  have e: "set files = {n. node_at fs (q @ [n]) \<noteq> None} \<and> distinct files \<and>
         node_at fs q = Some Dir"
    using rd nq by (rule os_read_dir_entries)
  have ent: "n \<in> set files \<longleftrightarrow> node_at fs (q @ [n]) \<noteq> None" for n
    using e by simp
  have dist: "distinct files" using e by simp
  have ra: "ReadAll d fs collection = read_files fs cdir files []"
    using assms(1) stat_found [OF assms(3)] rd by (simp add: ReadAll_def Let_def cdir_def)
  have rc: "os_read_file fs (Join [cdir, n]) =
      (case node_at fs (q @ [n]) of
         None \<Rightarrow> Inl ENOENT | Some Dir \<Rightarrow> Inl EISDIR | Some (File b) \<Rightarrow> Inr b)"
    if "n \<in> set files" for n
  proof -
    have "node_at fs (q @ [n]) \<noteq> None" using that by (simp add: ent)
    with assms(2) have "plain n" by (rule valid_names_entry)
    with assms(1) show ?thesis
      unfolding cdir_def using assms(4) qd by (rule read_child)
  qed
  have a: "\<exists>names records. ReadAll d fs collection = Inr records \<and>
              distinct names \<and> set names = {n. node_at fs (q @ [n]) \<noteq> None} \<and>
              list_all2 (\<lambda>n b. node_at fs (q @ [n]) = Some (File b)) names records"
    if nd: "\<forall>n. node_at fs (q @ [n]) \<noteq> Some Dir"
  proof -
    have "\<forall>n\<in>set files. \<exists>b. node_at fs (q @ [n]) = Some (File b)"
    proof
      fix n assume "n \<in> set files"
      then have "node_at fs (q @ [n]) \<noteq> None" by (simp add: ent)
      then obtain x where x: "node_at fs (q @ [n]) = Some x" by blast
      then show "\<exists>b. node_at fs (q @ [n]) = Some (File b)"
        using nd by (cases x) auto
    qed
    then have "\<exists>bs. list_all2 (\<lambda>n b. node_at fs (q @ [n]) = Some (File b)) files bs"
      by (rule list_all2_choice)
    then obtain records
      where l: "list_all2 (\<lambda>n b. node_at fs (q @ [n]) = Some (File b)) files records"
      by blast
    have "list_all2 (\<lambda>n b. os_read_file fs (Join [cdir, n]) = Inr b) files records"
      using l by (rule list.rel_mono_strong) (simp add: rc)
    then have "read_files fs cdir files [] = Inr records"
      using read_files_ok [of fs cdir files records "[]"] by simp
    then have "ReadAll d fs collection = Inr records \<and> distinct files \<and>
        set files = {n. node_at fs (q @ [n]) \<noteq> None} \<and>
        list_all2 (\<lambda>n b. node_at fs (q @ [n]) = Some (File b)) files records"
      using e l by (simp add: ra)
    then show ?thesis by blast
  qed
  have b: "ReadAll d fs collection = Inl (OSError EISDIR)"
    if "\<exists>n. node_at fs (q @ [n]) = Some Dir"
  proof -
    from that obtain n where n: "node_at fs (q @ [n]) = Some Dir" by blast
    then have nf: "n \<in> set files" by (simp add: ent)
    then have "os_read_file fs (Join [cdir, n]) = Inl EISDIR" using n by (simp add: rc)
    then have ex: "\<exists>n\<in>set files. os_read_file fs (Join [cdir, n]) = Inl EISDIR"
      using nf by blast
    have all: "\<forall>n\<in>set files. os_read_file fs (Join [cdir, n]) = Inl EISDIR \<or>
       (\<exists>b. os_read_file fs (Join [cdir, n]) = Inr b)"
    proof
      fix k assume k: "k \<in> set files"
      then have "node_at fs (q @ [k]) \<noteq> None" by (simp add: ent)
      then show "os_read_file fs (Join [cdir, k]) = Inl EISDIR \<or>
         (\<exists>b. os_read_file fs (Join [cdir, k]) = Inr b)"
        using rc [OF k] by (auto split: option.splits node.splits)
    qed
    show ?thesis using ra read_files_fail [OF all ex] by simp
  qed
  from a b show ?thesis by blast
qed

lemma leftover_fs_facts:
  "''users'' \<noteq> [] \<and> valid_names leftover_fs \<and>
   os_stat leftover_fs (Join [dir demo_store, ''users'']) = Inr ModeDir \<and>
   namei leftover_fs (Join [dir demo_store, ''users'']) = Inr [''db'', ''users''] \<and>
   (\<forall>n. node_at leftover_fs ([''db'', ''users''] @ [n]) \<noteq> Some Dir)"
  by (simp add: leftover_fs_def valid_names_def plain_def path_defs fs_defs demo_defs)

lemma nested_fs_facts:
  "valid_names nested_fs \<and>
   os_stat nested_fs (Join [dir demo_store, ''users'']) = Inr ModeDir \<and>
   namei nested_fs (Join [dir demo_store, ''users'']) = Inr [''db'', ''users''] \<and>
   node_at nested_fs ([''db'', ''users''] @ [''sub'']) = Some Dir"
  by (simp add: nested_fs_def valid_names_def plain_def path_defs fs_defs demo_defs)

theorem ReadAll_every_entry_witness:
  "(\<exists>names records. ReadAll demo_store leftover_fs ''users'' = Inr records \<and>
      distinct names \<and>
      set names = {n. node_at leftover_fs ([''db'', ''users''] @ [n]) \<noteq> None} \<and>
      list_all2 (\<lambda>n b. node_at leftover_fs ([''db'', ''users''] @ [n]) = Some (File b))
        names records) \<and>
   ReadAll demo_store leftover_fs ''users'' = Inr [''A'', ''B''] \<and>
   ReadAll demo_store nested_fs ''users'' = Inl (OSError EISDIR)"
proof -
  have 1: "\<exists>names records. ReadAll demo_store leftover_fs ''users'' = Inr records \<and>
      distinct names \<and>
      set names = {n. node_at leftover_fs ([''db'', ''users''] @ [n]) \<noteq> None} \<and>
      list_all2 (\<lambda>n b. node_at leftover_fs ([''db'', ''users''] @ [n]) = Some (File b))
        names records"
    using ReadAll_every_entry [where d = demo_store and fs = leftover_fs
        and collection = "''users''" and q = "[''db'', ''users'']"] leftover_fs_facts
    by blast
  have 2: "ReadAll demo_store nested_fs ''users'' = Inl (OSError EISDIR)"
    using ReadAll_every_entry [where d = demo_store and fs = nested_fs
        and collection = "''users''" and q = "[''db'', ''users'']"] nested_fs_facts
    by blast
  have 3: "ReadAll demo_store leftover_fs ''users'' = Inr [''A'', ''B'']"
    by (simp add: ReadAll_def Let_def leftover_fs_def path_defs fs_defs demo_defs)
  from 1 2 3 show ?thesis by blast
qed

section \<open>Delete\<close>

subsection \<open>A whole collection\<close>

lemma walk_sub:
  assumes "\<forall>k. node_at fs' k = node_at fs k \<or> node_at fs' k = None"
  shows "walk fs cur cs = Inr r \<Longrightarrow> walk fs' cur cs = Inr r \<or> walk fs' cur cs = Inl ENOENT"
proof (induction cs arbitrary: cur)
  case Nil
  then show ?case by simp
next
  case (Cons c cs)
  from Cons.prems have d: "node_at fs cur = Some Dir"
    by (auto split: option.splits node.splits)
  then have w: "walk fs (step cur c) cs = Inr r" using Cons.prems by simp
  from assms have "node_at fs' cur = Some Dir \<or> node_at fs' cur = None"
    using d by metis
  then show ?case
  proof
    assume "node_at fs' cur = Some Dir"
    then show ?thesis using Cons.IH [OF w] by simp
  next
    assume "node_at fs' cur = None"
    then show ?thesis by simp
  qed
qed

lemma remove_tree_sub:
  "\<forall>k. node_at (remove_tree fs p) k = node_at fs k \<or> node_at (remove_tree fs p) k = None"
  by (simp add: node_at_remove_tree)

lemma ends_with_dot_snoc:
  assumes "c \<noteq> []" and "c \<noteq> ''.''" and "CHR ''/'' \<notin> set c"
  shows "\<not> ends_with_dot (P @ c)"
proof (cases "butlast c = []")
  case True
  then obtain x where c: "c = [x]" using assms(1) by (cases c) (auto split: if_splits)
  then have "x \<noteq> CHR ''.''" using assms(2) by simp
  then show ?thesis by (simp add: ends_with_dot_def c)
next
  case False
  then have "last (butlast c) \<in> set c" by (meson in_set_butlastD last_in_set)
  then have "last (butlast c) \<noteq> CHR ''/''" using assms(3) by metis
  moreover have "butlast (P @ c) = P @ butlast c" using assms(1) by (simp add: butlast_append)
  moreover have "P @ c \<noteq> ''.''"
    using assms(1,2) by (cases P) (auto simp: append_eq_Cons_conv)
  ultimately show ?thesis using False by (simp add: ends_with_dot_def)
qed

lemma ends_with_dot_render:
  assumes "norm_elems T" and "ends_with_dot (render r T)"
  shows "render r T = ''.''"
proof (cases T rule: rev_cases)
  case Nil
  then show ?thesis using assms(2) by (cases r) (simp_all add: render_def ends_with_dot_def)
next
  case (snoc T' c)
  then have "c = ''..'' \<or> plain c" using assms(1) by (simp add: norm_elems_def)
  then have "c \<noteq> []" "c \<noteq> ''.''" "CHR ''/'' \<notin> set c" by (auto simp: plain_def)
  then have "\<not> ends_with_dot (render_pref r T' @ c)" by (rule ends_with_dot_snoc)
  then show ?thesis using assms(2) by (simp add: snoc render_snoc)
qed

lemma ends_with_dot_Clean:
  assumes "ends_with_dot (Clean X)"
  shows "Clean X = ''.''"
proof (cases "X = []")
  case True
  then show ?thesis by (simp add: Clean_def)
next
  case False
  then have c: "Clean X = render (is_rooted X) (parts (is_rooted X) X)" by (rule Clean_parts)
  have "render (is_rooted X) (parts (is_rooted X) X) = ''.''"
    using assms unfolding c by (intro ends_with_dot_render) simp_all
  then show ?thesis by (simp only: c)
qed

lemma namei_dot: "namei fs ''.'' = Inr []"
  by (simp add: namei_def step_def)

lemma Join_trailing_empty: "c \<noteq> [] \<Longrightarrow> Join [a, c, []] = Join [a, c]"
  using Clean_trailing_sep [of "a @ CHR ''/'' # c"] Clean_trailing_sep [of c]
  by (simp add: Join_two Join_three)

lemma Delete_collection_target:
  "c \<noteq> [] \<Longrightarrow> \<not> is_rooted c \<Longrightarrow> Join [a, Join [c, []]] = Join [a, c]"
  by (simp add: Join_inner_relative Join_trailing_empty)

lemma os_remove_all_dir:
  assumes "c \<noteq> []" and "namei fs (Join [a, c]) = Inr q" and "q \<noteq> []"
  shows "os_remove_all fs (Join [a, c]) = (None, remove_tree fs q)"
proof -
  obtain X where X: "X \<noteq> []" "Join [a, c] = Clean X"
    using assms(1) Join_two_Clean by blast
  have "Clean X \<noteq> ''.''"
    using assms(2,3) by (auto simp: X namei_dot)
  then have "\<not> ends_with_dot (Clean X)" using ends_with_dot_Clean by blast
  then show ?thesis using assms(2,3) by (simp add: os_remove_all_def X)
qed

lemma stat_after_removal:
  assumes "G \<noteq> []" and "namei fs G = Inr q" and "q \<noteq> []"
  shows "stat (remove_tree fs q) G = Inl ENOENT \<or> (\<exists>m. stat (remove_tree fs q) G = Inr m)"
    and "namei (remove_tree fs q) G = Inr q \<or> namei (remove_tree fs q) G = Inl ENOENT"
    and "node_at (remove_tree fs q) q = None"
proof -
  let ?fs = "remove_tree fs q"
  define xs where "xs = butlast (split_sep G)"
  define c where "c = last (split_sep G)"
  have sp: "split_sep G = xs @ [c]" by (simp add: xs_def c_def)
  have w: "walk fs [] (xs @ [c]) = Inr q" using assms(1,2) by (simp add: namei_def sp)
  from walk_snoc_Inr [OF w]
  obtain p where p: "walk fs [] xs = Inr p" and pd: "node_at fs p = Some Dir" by blast
  show n: "namei ?fs G = Inr q \<or> namei ?fs G = Inl ENOENT"
    using walk_sub [OF remove_tree_sub w] assms(1) by (simp add: namei_def sp)
  show gone: "node_at ?fs q = None" using assms(3) by (simp add: node_at_remove_tree)
  have bare: "os_stat ?fs G = Inl ENOENT"
    using n gone by (auto simp: os_stat_def)
  have "walk ?fs [] xs = Inr p \<or> walk ?fs [] xs = Inl ENOENT"
    by (rule walk_sub [OF remove_tree_sub p])
  moreover have "node_at ?fs p = Some Dir \<or> node_at ?fs p = None"
    using pd by (simp add: node_at_remove_tree)
  ultimately have "(\<exists>k. walk ?fs [] (xs @ [c @ ''.json'']) = Inr k) \<or>
      walk ?fs [] (xs @ [c @ ''.json'']) = Inl ENOENT"
    by (auto simp: walk_snoc)
  then have "(\<exists>k. namei ?fs (G @ ''.json'') = Inr k) \<or> namei ?fs (G @ ''.json'') = Inl ENOENT"
    by (simp add: namei_suffix xs_def c_def)
  then have "os_stat ?fs (G @ ''.json'') = Inl ENOENT \<or> (\<exists>m. os_stat ?fs (G @ ''.json'') = Inr m)"
    by (auto simp: os_stat_def split: option.splits)
  then show "stat ?fs G = Inl ENOENT \<or> (\<exists>m. stat ?fs G = Inr m)"
    by (simp add: stat_def bare)
qed

lemma ReadAll_after_removal:
  assumes "collection \<noteq> []" and "namei fs (Join [dir d, collection]) = Inr q" and "q \<noteq> []"
  shows "ReadAll d (remove_tree fs q) collection = Inl (OSError ENOENT)"
proof -
  let ?fs = "remove_tree fs q"
  let ?cdir = "Join [dir d, collection]"
  have ne: "?cdir \<noteq> []" using assms(1) by (auto simp: Join_two)
  note s = stat_after_removal [OF ne assms(2,3)]
  have rd: "os_read_dir ?fs ?cdir = Inl ENOENT"
    using s(2,3) by (auto simp: os_read_dir_def)
  from s(1) show ?thesis
  proof
    assume "stat ?fs ?cdir = Inl ENOENT"
    then show ?thesis using assms(1) by (simp add: ReadAll_def Let_def)
  next
    assume "\<exists>m. stat ?fs ?cdir = Inr m"
    then show ?thesis using assms(1) rd by (auto simp: ReadAll_def Let_def)
  qed
qed

text \<open>
  Claim C6, as amended. Take a collection with a name that is not empty, whose
  directory exists and whose directory is what \<open>Delete\<close> with the empty record name
  addresses: \<open>filepath.Join\<close> of the root and of \<open>filepath.Join\<close> of the name and
  the empty string is \<open>filepath.Join\<close> of the root and the name, as it is for every
  name that does not start with a separator (lemma \<open>Delete_collection_target\<close>).
  If that directory is not the working directory itself, \<open>Delete\<close> of the collection
  with the empty record name returns no error and removes the directory with
  everything under it, every other node of the file system stays as it was, and
  \<open>ReadAll\<close> of the collection then returns the not-exist error of the stat.
\<close>

theorem Delete_whole_collection:
  assumes "collection \<noteq> []"
    and "Join [dir d, Join [collection, []]] = Join [dir d, collection]"
    and "os_stat fs (Join [dir d, collection]) = Inr ModeDir"
    and "namei fs (Join [dir d, collection]) = Inr q" and "q \<noteq> []"
  shows "fst (Delete d fs collection []) = None \<and>
         snd (snd (Delete d fs collection [])) = remove_tree fs q \<and>
         (\<forall>k. is_under q k \<longrightarrow> node_at (remove_tree fs q) k = None) \<and>
         (\<forall>k. \<not> is_under q k \<longrightarrow> node_at (remove_tree fs q) k = node_at fs k) \<and>
         ReadAll (fst (snd (Delete d fs collection []))) (remove_tree fs q) collection =
           Inl (OSError ENOENT)"
proof -
  have st: "stat fs (Join [dir d, collection]) = Inr ModeDir"
    using assms(3) by (rule stat_found)
  have rm: "os_remove_all fs (Join [dir d, collection]) = (None, remove_tree fs q)"
    using assms(1,4,5) by (rule os_remove_all_dir)
  have del: "Delete d fs collection [] = (None, snd (getOrCreateMutex d collection), remove_tree fs q)"
    by (simp add: Delete_def Let_def assms(2) st rm)
  have "ReadAll (snd (getOrCreateMutex d collection)) (remove_tree fs q) collection =
      Inl (OSError ENOENT)"
    using assms(1,4,5) by (intro ReadAll_after_removal) (simp_all add: getOrCreateMutex_dir)
  moreover have "\<forall>k. is_under q k \<longrightarrow> node_at (remove_tree fs q) k = None"
    using assms(5) by (auto simp: node_at_remove_tree is_under_def)
  moreover have "\<forall>k. \<not> is_under q k \<longrightarrow> node_at (remove_tree fs q) k = node_at fs k"
    by (auto simp: node_at_remove_tree)
  ultimately show ?thesis by (simp add: del)
qed

lemma users_fs_collection:
  "''users'' \<noteq> [] \<and>
   Join [dir demo_store, Join [''users'', []]] = Join [dir demo_store, ''users''] \<and>
   os_stat users_fs (Join [dir demo_store, ''users'']) = Inr ModeDir \<and>
   namei users_fs (Join [dir demo_store, ''users'']) = Inr [''db'', ''users''] \<and>
   [''db'', ''users''] \<noteq> []"
  by (simp add: users_fs_def path_defs fs_defs demo_defs)

theorem Delete_whole_collection_witness:
  "fst (Delete demo_store users_fs ''users'' []) = None \<and>
   snd (snd (Delete demo_store users_fs ''users'' [])) =
     remove_tree users_fs [''db'', ''users''] \<and>
   node_at (remove_tree users_fs [''db'', ''users'']) [''db'', ''users''] = None \<and>
   node_at (remove_tree users_fs [''db'', ''users'']) [''db'', ''users'', ''John.json''] = None \<and>
   node_at (remove_tree users_fs [''db'', ''users'']) [''db''] = node_at users_fs [''db''] \<and>
   ReadAll (fst (snd (Delete demo_store users_fs ''users'' [])))
     (remove_tree users_fs [''db'', ''users'']) ''users'' = Inl (OSError ENOENT)"
proof -
  have u: "is_under [''db'', ''users''] [''db'', ''users''] \<and>
      is_under [''db'', ''users''] [''db'', ''users'', ''John.json''] \<and>
      \<not> is_under [''db'', ''users''] [''db'']"
    by (simp add: is_under_def)
  show ?thesis
    using Delete_whole_collection [where d = demo_store and fs = users_fs
        and collection = "''users''" and q = "[''db'', ''users'']"] users_fs_collection u
    by blast
qed

text \<open>
  Claim C6 as stated fails. With the store at \<open>db\<close>, the collection \<open>/..\<close> is the
  directory above the store, which exists and holds the record \<open>x\<close>;
  \<open>filepath.Join\<close> of \<open>/..\<close> and the empty string is \<open>/\<close>, so \<open>Delete\<close> removes
  the store's root instead, returns no error, and \<open>ReadAll\<close> of the collection
  still returns the record. With the store at the working directory, the collection
  \<open>.\<close> exists, and \<open>Delete\<close> of it fails with \<open>EINVAL\<close> from \<open>os.RemoveAll\<close> and
  removes nothing. With the empty collection name \<open>Delete\<close> removes the store's
  root, and \<open>ReadAll\<close> of the empty name returns its missing-collection error.
\<close>

theorem Delete_rooted_collection_counterexample:
  "os_stat root_fs (Join [dir demo_store, ''/..'']) = Inr ModeDir \<and>
   os_read_file root_fs (Join [Join [dir demo_store, ''/..''], ''x'' @ ''.json'']) = Inr ''X'' \<and>
   fst (Delete demo_store root_fs ''/..'' []) = None \<and>
   snd (snd (Delete demo_store root_fs ''/..'' [])) = [([''x.json''], File ''X'')] \<and>
   ReadAll demo_store [([''x.json''], File ''X'')] ''/..'' = Inr [''X''] \<and>
   dir (fst (New ''./'' users_fs)) = ''.'' \<and>
   os_stat users_fs (Join [dir (fst (New ''./'' users_fs)), ''.'']) = Inr ModeDir \<and>
   fst (Delete (fst (New ''./'' users_fs)) users_fs ''.'' []) = Some (OSError EINVAL) \<and>
   snd (snd (Delete (fst (New ''./'' users_fs)) users_fs ''.'' [])) = users_fs \<and>
   os_stat users_fs (Join [dir demo_store, []]) = Inr ModeDir \<and>
   fst (Delete demo_store users_fs [] []) = None \<and>
   snd (snd (Delete demo_store users_fs [] [])) = [] \<and>
   ReadAll demo_store [] [] = Inl (Errorf ''missing collection - no place to read records'')"
  by (simp add: Delete_def ReadAll_def New_def Let_def root_fs_def users_fs_def
      path_defs fs_defs demo_defs)

subsection \<open>One record\<close>

lemma not_under_file:
  assumes "node_at fs p \<noteq> Some Dir" and "dirs_above fs k" and "k \<noteq> p"
  shows "\<not> is_under p k"
proof
  assume "is_under p k"
  then have u: "take (length p) k = p" by (simp only: is_under_def)
  have "length (take (length p) k) = length p" by (simp only: u)
  then have le: "length p \<le> length k" by simp
  have "length p \<noteq> length k"
  proof
    assume e: "length p = length k"
    have "take (length k) k = p" using u by (simp only: e)
    then show False using assms(3) by simp
  qed
  then have "length p < length k" using le by simp
  then have "node_at fs (take (length p) k) = Some Dir"
    using assms(2) by (simp only: dirs_above_def)
  then show False using assms(1) by (simp only: u)
qed

lemma frame_after_file_removal:
  assumes "node_at fs p \<noteq> Some Dir" and "namei fs path = Inr k" and "k \<noteq> p"
  shows "namei (remove_tree fs p) path = Inr k"
    and "node_at (remove_tree fs p) k = node_at fs k"
proof -
  have kd: "keeps_dirs fs (remove_tree fs p)" using assms(1) by (rule keeps_dirs_remove_tree)
  show "namei (remove_tree fs p) path = Inr k" using assms(2) kd by (rule namei_mono)
  have "walk fs [] (split_sep path) = Inr k"
    using assms(2) by (simp add: namei_def split: if_splits)
  then have "dirs_above fs k" by (rule walk_dirs_above) simp
  with assms(1) have "\<not> is_under p k" using assms(3) by (rule not_under_file)
  then show "node_at (remove_tree fs p) k = node_at fs k"
    by (simp add: node_at_remove_tree)
qed

lemma os_frame_after_file_removal:
  assumes "node_at fs p \<noteq> Some Dir" and "namei fs path = Inr k" and "k \<noteq> p"
  shows "os_stat (remove_tree fs p) path = os_stat fs path \<and>
         os_read_file (remove_tree fs p) path = os_read_file fs path"
  using frame_after_file_removal [OF assms] assms(2)
  by (simp add: os_stat_def os_read_file_def)

lemma os_stat_regular:
  "os_stat fs p = Inr ModeRegular \<Longrightarrow> namei fs p = Inr k \<Longrightarrow>
     (\<exists>b. node_at fs k = Some (File b)) \<and> k \<noteq> []"
  by (auto simp: os_stat_def mode_of_def split: option.splits node.splits)

lemma os_stat_modes: "os_stat fs p = Inr m \<Longrightarrow> m = ModeDir \<or> m = ModeRegular"
  by (auto simp: os_stat_def mode_of_def split: sum.splits option.splits node.splits)

lemma stat_regular:
  assumes "os_stat fs (p @ ''.json'') = Inr ModeRegular" and "os_stat fs p \<noteq> Inr ModeDir"
  shows "stat fs p = Inr ModeRegular"
proof (cases "p = []")
  case True
  then have "os_stat fs p = Inl ENOENT" by (simp add: os_stat_def namei_def)
  then show ?thesis using assms(1) by (simp add: stat_def)
next
  case False
  obtain k where k: "namei fs (p @ ''.json'') = Inr k"
    using assms(1) by (auto simp: os_stat_def split: sum.splits)
  then obtain b where "node_at fs k = Some (File b)"
    using os_stat_regular [OF assms(1)] by blast
  then have "os_read_file fs (p @ ''.json'') = Inr b" using k by (simp add: os_read_file_def)
  then obtain m where m: "stat fs p = Inr m" using stat_of_json False by blast
  show ?thesis
  proof (cases "os_stat fs p")
    case (Inl e)
    then show ?thesis using m assms(1) by (simp add: stat_def split: if_splits)
  next
    case (Inr m')
    then have "m' = ModeRegular" using os_stat_modes assms(2) by blast
    then show ?thesis using Inr by (simp add: stat_def)
  qed
qed

lemma ends_with_dot_json [simp]: "\<not> ends_with_dot (p @ ''.json'')"
  by (simp add: ends_with_dot_def)

lemma os_remove_all_json:
  "namei fs (p @ ''.json'') = Inr k \<Longrightarrow> k \<noteq> [] \<Longrightarrow>
     os_remove_all fs (p @ ''.json'') = (None, remove_tree fs k)"
  by (simp add: os_remove_all_def)

lemma Join_three_plain:
  assumes "a \<noteq> [] \<or> c \<noteq> []"
  shows "\<exists>P. \<forall>n. plain n \<longrightarrow> Join [a, c, n] = P @ n"
proof (cases "a = []")
  case True
  then have "\<forall>n. plain n \<longrightarrow> Join [a, c, n] = render_pref (is_rooted c) (parts (is_rooted c) c) @ n"
    using assms by (simp add: Join_three Join_two Clean_snoc_plain)
  then show ?thesis by blast
next
  case False
  then have "\<forall>n. plain n \<longrightarrow> Join [a, c, n] =
      render_pref (is_rooted (a @ CHR ''/'' # c)) (parts (is_rooted (a @ CHR ''/'' # c)) (a @ CHR ''/'' # c)) @ n"
    using Clean_snoc_plain [of "a @ CHR ''/'' # c"] by (simp add: Join_three)
  then show ?thesis by blast
qed

lemma sibling_paths_differ:
  assumes "a \<noteq> [] \<or> c \<noteq> []" and "plain n" and "plain n'" and "n \<noteq> n'"
    and "namei fs (Join [a, c, n] @ ''.json'') = Inr k"
    and "namei fs (Join [a, c, n'] @ ''.json'') = Inr k'"
  shows "k \<noteq> k'"
proof -
  obtain P where P: "\<forall>n. plain n \<longrightarrow> Join [a, c, n] = P @ n"
    using Join_three_plain [OF assms(1)] by blast
  define xs where "xs = butlast (split_sep P)"
  define l where "l = last (split_sep P)"
  have "l \<in> set (split_sep P)" by (simp add: l_def)
  then have nl: "CHR ''/'' \<notin> set l" by (rule split_sep_no_sep)
  have res: "namei fs (Join [a, c, m] @ ''.json'') = Inr r \<Longrightarrow>
      \<exists>q. r = q @ [l @ m @ ''.json''] \<and> walk fs [] xs = Inr q" if "plain m" for m r
  proof -
    assume r: "namei fs (Join [a, c, m] @ ''.json'') = Inr r"
    have nm: "CHR ''/'' \<notin> set (m @ ''.json'')" using that by (simp add: plain_def)
    have "Join [a, c, m] @ ''.json'' = P @ (m @ ''.json'')" using P that by simp
    then have "namei fs (Join [a, c, m] @ ''.json'') =
        walk fs [] (xs @ [l @ m @ ''.json''])"
      using namei_suffix [OF nm, of P fs] by (simp add: xs_def l_def)
    then have "walk fs [] (xs @ [l @ m @ ''.json'']) = Inr r" using r by simp
    from walk_snoc_Inr [OF this] obtain q where q: "walk fs [] xs = Inr q"
      and rq: "r = step q (l @ m @ ''.json'')" by blast
    have "plain ((l @ m) @ ''.json'')"
      using nl that by (intro plain_json) (simp add: plain_def)
    then have "r = q @ [l @ m @ ''.json'']" using rq by simp
    then show ?thesis using q by blast
  qed
  from res [OF assms(2) assms(5)] obtain q where k: "k = q @ [l @ n @ ''.json'']"
    and q: "walk fs [] xs = Inr q" by blast
  from res [OF assms(3) assms(6)] obtain q' where k': "k' = q' @ [l @ n' @ ''.json'']"
    and q': "walk fs [] xs = Inr q'" by blast
  show ?thesis using assms(4) by (simp add: k k')
qed


lemma plain_last_split: "plain n \<Longrightarrow> last (split_sep n) = n"
  by (simp add: plain_def split_sep_single)

lemma Delete_record_target:
  "collection \<noteq> [] \<Longrightarrow> \<not> is_rooted collection \<Longrightarrow> plain (last (split_sep resources)) \<Longrightarrow>
     Join [a, Join [collection, resources]] @ ''.json'' =
       Join [Join [a, collection], resources @ ''.json'']"
  by (simp add: Join_inner_relative record_path_json)

text \<open>
  Claim C7, as amended. Take a record whose file, at the path \<open>Write\<close> stores it
  under, is a regular file, and which \<open>Delete\<close> addresses: the path \<open>Delete\<close> joins
  from the root, the collection and the record name, with \<open>.json\<close> appended, is the
  path of that file, as it is for every collection name that is not empty and does
  not start with a separator and every record name whose last element is a plain
  name (lemma \<open>Delete_record_target\<close>); and there is no directory at the path
  without \<open>.json\<close>. Then \<open>Delete\<close> returns no error and removes that file and
  nothing else: the file no longer exists, every path that resolved to another node
  has the same stat and the same content as before, and every record of any
  collection whose file is another file reads back after the deletion as it did
  before. The files of the siblings of the deleted record, under plain names, are
  other files.
\<close>

theorem Delete_one_record:
  assumes "Join [dir d, Join [collection, resources]] @ ''.json'' =
           Join [Join [dir d, collection], resources @ ''.json'']"
    and "os_stat fs (Join [dir d, Join [collection, resources]]) \<noteq> Inr ModeDir"
    and "os_stat fs (Join [Join [dir d, collection], resources @ ''.json'']) = Inr ModeRegular"
    and "namei fs (Join [Join [dir d, collection], resources @ ''.json'']) = Inr pj"
  shows "fst (Delete d fs collection resources) = None \<and>
         snd (snd (Delete d fs collection resources)) = remove_tree fs pj \<and>
         os_stat (remove_tree fs pj) (Join [Join [dir d, collection], resources @ ''.json'']) =
           Inl ENOENT \<and>
         (\<forall>path k. namei fs path = Inr k \<and> k \<noteq> pj \<longrightarrow>
            os_stat (remove_tree fs pj) path = os_stat fs path \<and>
            os_read_file (remove_tree fs pj) path = os_read_file fs path) \<and>
         (\<forall>c n k b. c \<noteq> [] \<and> n \<noteq> [] \<and>
            namei fs (Join [dir d, c, n] @ ''.json'') = Inr k \<and> k \<noteq> pj \<and>
            os_read_file fs (Join [dir d, c, n] @ ''.json'') = Inr b \<longrightarrow>
              Read unmarshal d fs c n v = unmarshal b v \<and>
              Read unmarshal (fst (snd (Delete d fs collection resources)))
                (remove_tree fs pj) c n v = unmarshal b v) \<and>
         (\<forall>n k. collection \<noteq> [] \<and> plain resources \<and> plain n \<and> n \<noteq> resources \<and>
            namei fs (Join [dir d, collection, n] @ ''.json'') = Inr k \<longrightarrow> k \<noteq> pj)"
proof -
  let ?target = "Join [dir d, Join [collection, resources]]"
  let ?fnl = "Join [Join [dir d, collection], resources @ ''.json'']"
  let ?fs = "remove_tree fs pj"
  have tj: "?target @ ''.json'' = ?fnl" by (rule assms(1))
  have reg: "os_stat fs (?target @ ''.json'') = Inr ModeRegular"
    using assms(3) by (simp only: tj)
  have npj: "namei fs (?target @ ''.json'') = Inr pj" using assms(4) by (simp only: tj)
  from os_stat_regular [OF reg npj]
  obtain b0 where pjf: "node_at fs pj = Some (File b0)" and pjne: "pj \<noteq> []" by blast
  have nd: "node_at fs pj \<noteq> Some Dir" by (simp add: pjf)
  have st: "stat fs ?target = Inr ModeRegular"
    using reg assms(2) by (rule stat_regular)
  have rm: "os_remove_all fs (?target @ ''.json'') = (None, ?fs)"
    using npj pjne by (rule os_remove_all_json)
  have del: "Delete d fs collection resources =
      (None, snd (getOrCreateMutex d collection), ?fs)"
    by (simp add: Delete_def Let_def st rm)
  have kd: "keeps_dirs fs ?fs" using nd by (rule keeps_dirs_remove_tree)
  have "namei ?fs ?fnl = Inr pj" using assms(4) kd by (rule namei_mono)
  moreover have "node_at ?fs pj = None" using pjne by (simp add: node_at_remove_tree)
  ultimately have gone: "os_stat ?fs ?fnl = Inl ENOENT" by (simp add: os_stat_def)
  have frame: "os_stat ?fs path = os_stat fs path \<and> os_read_file ?fs path = os_read_file fs path"
    if "namei fs path = Inr k" and "k \<noteq> pj" for path k
    using nd that by (rule os_frame_after_file_removal)
  have reads: "Read unmarshal d fs c n v = unmarshal b v \<and>
      Read unmarshal (snd (getOrCreateMutex d collection)) ?fs c n v = unmarshal b v"
    if "c \<noteq> []" and "n \<noteq> []" and "namei fs (Join [dir d, c, n] @ ''.json'') = Inr k"
      and "k \<noteq> pj" and "os_read_file fs (Join [dir d, c, n] @ ''.json'') = Inr b"
    for c n k b
  proof -
    have 1: "Read unmarshal d fs c n v = unmarshal b v"
      using that(1,2,5) by (rule Read_of_file)
    have "os_read_file ?fs (Join [dir d, c, n] @ ''.json'') = Inr b"
      using frame [OF that(3,4)] that(5) by simp
    then have "os_read_file ?fs
        (Join [dir (snd (getOrCreateMutex d collection)), c, n] @ ''.json'') = Inr b"
      by (simp add: getOrCreateMutex_dir)
    with that(1,2) have "Read unmarshal (snd (getOrCreateMutex d collection)) ?fs c n v =
        unmarshal b v" by (rule Read_of_file)
    with 1 show ?thesis by simp
  qed
  have sib: "k \<noteq> pj"
    if "collection \<noteq> []" and "plain resources" and "plain n" and "n \<noteq> resources"
      and "namei fs (Join [dir d, collection, n] @ ''.json'') = Inr k" for n k
  proof -
    have "?fnl = Join [dir d, collection, resources] @ ''.json''"
      using that(1,2) by (simp add: record_path_json plain_last_split)
    then have "namei fs (Join [dir d, collection, resources] @ ''.json'') = Inr pj"
      using assms(4) by simp
    with that show ?thesis
      using sibling_paths_differ [of "dir d" collection n resources fs k pj] by blast
  qed
  show ?thesis
    using gone frame reads sib by (simp add: del) blast
qed

lemma users_fs_record:
  "Join [dir demo_store, Join [''users'', ''John'']] @ ''.json'' =
     Join [Join [dir demo_store, ''users''], ''John'' @ ''.json''] \<and>
   os_stat users_fs (Join [dir demo_store, Join [''users'', ''John'']]) \<noteq> Inr ModeDir \<and>
   os_stat users_fs (Join [Join [dir demo_store, ''users''], ''John'' @ ''.json'']) =
     Inr ModeRegular \<and>
   namei users_fs (Join [Join [dir demo_store, ''users''], ''John'' @ ''.json'']) =
     Inr [''db'', ''users'', ''John.json'']"
  by (simp add: users_fs_def path_defs fs_defs demo_defs)

lemma users_fs_sibling:
  "''users'' \<noteq> [] \<and> ''Paul'' \<noteq> [] \<and>
   namei users_fs (Join [dir demo_store, ''users'', ''Paul''] @ ''.json'') =
     Inr [''db'', ''users'', ''Paul.json''] \<and>
   [''db'', ''users'', ''Paul.json''] \<noteq> [''db'', ''users'', ''John.json''] \<and>
   os_read_file users_fs (Join [dir demo_store, ''users'', ''Paul''] @ ''.json'') = Inr ''{''"
  by (simp add: users_fs_def path_defs fs_defs demo_defs)

theorem Delete_one_record_witness:
  "fst (Delete demo_store users_fs ''users'' ''John'') = None \<and>
   snd (snd (Delete demo_store users_fs ''users'' ''John'')) =
     remove_tree users_fs [''db'', ''users'', ''John.json''] \<and>
   os_stat (remove_tree users_fs [''db'', ''users'', ''John.json''])
     (Join [Join [dir demo_store, ''users''], ''John'' @ ''.json'']) = Inl ENOENT \<and>
   Read demo_unmarshal demo_store users_fs ''users'' ''Paul'' (Str []) =
     demo_unmarshal ''{'' (Str []) \<and>
   Read demo_unmarshal (fst (snd (Delete demo_store users_fs ''users'' ''John'')))
     (remove_tree users_fs [''db'', ''users'', ''John.json'']) ''users'' ''Paul'' (Str []) =
     demo_unmarshal ''{'' (Str [])"
  using Delete_one_record [where d = demo_store and fs = users_fs
      and collection = "''users''" and resources = "''John''"
      and pj = "[''db'', ''users'', ''John.json'']" and unmarshal = demo_unmarshal
      and v = "Str []"] users_fs_record users_fs_sibling
  by blast

text \<open>
  Claim C7 as stated fails. In the collection \<open>users\<close> holding the records \<open>.\<close> and
  \<open>Paul\<close>, \<open>Delete\<close> of the record \<open>.\<close> returns no error and removes the whole
  collection directory, \<open>Paul\<close> included. And where the collection \<open>users\<close> holds
  the record \<open>John\<close> beside the sub-collection \<open>users/John\<close> with its record \<open>x\<close>,
  \<open>Delete\<close> of the record \<open>John\<close> returns no error, removes the directory of the
  sub-collection with the record \<open>x\<close>, and leaves the file of \<open>John\<close>.
\<close>

theorem Delete_dot_record_counterexample:
  "os_read_file dot_fs (Join [Join [dir demo_store, ''users''], ''.'' @ ''.json'']) =
     Inr (CHR 0x22 # ''dot'' @ [CHR 0x22, CHR 0x0A]) \<and>
   os_read_file dot_fs ''db/users/Paul.json'' = Inr (CHR 0x22 # ''paul'' @ [CHR 0x22, CHR 0x0A]) \<and>
   fst (Delete demo_store dot_fs ''users'' ''.'') = None \<and>
   snd (snd (Delete demo_store dot_fs ''users'' ''.'')) = [([''db''], Dir)] \<and>
   os_read_file [([''db''], Dir)] ''db/users/Paul.json'' = Inl ENOENT \<and>
   os_read_file sub_collection_fs
     (Join [Join [dir demo_store, ''users''], ''John'' @ ''.json'']) =
     Inr (CHR 0x22 # ''john'' @ [CHR 0x22, CHR 0x0A]) \<and>
   os_read_file sub_collection_fs
     (Join [Join [dir demo_store, ''users/John''], ''x'' @ ''.json'']) =
     Inr (CHR 0x22 # ''x'' @ [CHR 0x22, CHR 0x0A]) \<and>
   fst (Delete demo_store sub_collection_fs ''users'' ''John'') = None \<and>
   snd (snd (Delete demo_store sub_collection_fs ''users'' ''John'')) =
     [([''db''], Dir), ([''db'', ''users''], Dir),
      ([''db'', ''users'', ''John.json''], File (CHR 0x22 # ''john'' @ [CHR 0x22, CHR 0x0A]))] \<and>
   os_read_file (snd (snd (Delete demo_store sub_collection_fs ''users'' ''John'')))
     (Join [Join [dir demo_store, ''users/John''], ''x'' @ ''.json'']) = Inl ENOENT"
  by (simp add: Delete_def Let_def dot_fs_def sub_collection_fs_def path_defs fs_defs demo_defs)

section \<open>Delete and the not-found error\<close>

text \<open>
  Claim C8, as amended. \<open>Delete\<close> returns its not-found error (\<open>unable to find file
  or directory named\<close> followed by the joined names) exactly when the stat with
  fallback of the target fails, for whatever reason: because neither form exists, or
  because the stat fails otherwise. No failure of the stat is passed through.
\<close>

theorem Delete_not_found_iff:
  "(fst (Delete d fs collection resources) =
      Some (Errorf (''unable to find file or directory named '' @ Join [collection, resources])))
   = (\<exists>e. stat fs (Join [dir d, Join [collection, resources]]) = Inl e)"
  by (auto simp: Delete_def Let_def split: sum.splits file_mode.splits option.splits prod.splits)

lemma blocked_fs_stat:
  "stat blocked_fs (Join [dir demo_store, Join [''users'', ''John'']]) = Inl ENOTDIR"
  by (simp add: blocked_fs_def path_defs fs_defs demo_defs)

theorem Delete_not_found_iff_witness:
  "fst (Delete demo_store blocked_fs ''users'' ''John'') =
     Some (Errorf ''unable to find file or directory named users/John'')"
proof -
  have "\<exists>e. stat blocked_fs (Join [dir demo_store, Join [''users'', ''John'']]) = Inl e"
    using blocked_fs_stat by blast
  then have "fst (Delete demo_store blocked_fs ''users'' ''John'') =
      Some (Errorf (''unable to find file or directory named '' @ Join [''users'', ''John'']))"
    using Delete_not_found_iff [where d = demo_store and fs = blocked_fs
        and collection = "''users''" and resources = "''John''"] by simp
  then show ?thesis by (simp add: path_defs)
qed

text \<open>
  Claim C8 as stated fails: where \<open>db/users\<close> is a regular file, the stat of
  \<open>db/users/John\<close> fails with \<open>ENOTDIR\<close>, which is not a not-exist error, and
  \<open>Delete\<close> still answers with its not-found error instead of passing \<open>ENOTDIR\<close> on.
\<close>

theorem Delete_stat_error_counterexample:
  "os_stat blocked_fs ''db/users/John'' = Inl ENOTDIR \<and>
   os_stat blocked_fs ''db/users'' = Inr ModeRegular \<and>
   stat blocked_fs (Join [dir demo_store, Join [''users'', ''John'']]) = Inl ENOTDIR \<and>
   fst (Delete demo_store blocked_fs ''users'' ''John'') \<noteq> Some (OSError ENOTDIR) \<and>
   fst (Delete demo_store blocked_fs ''users'' ''John'') =
     Some (Errorf ''unable to find file or directory named users/John'')"
  by (simp add: Delete_def Let_def blocked_fs_def path_defs fs_defs demo_defs)

section \<open>The lock registry\<close>

lemma apply_op_keeps:
  "mutexes (fst s) c = Some m \<Longrightarrow> mutexes (fst (apply_op marshal s x)) c = Some m"
proof (cases s)
  case (Pair d fs)
  assume h: "mutexes (fst s) c = Some m"
  show ?thesis
  proof (cases x)
    case (OpWrite c' n v)
    with Pair h show ?thesis
      by (simp add: Write_driver getOrCreateMutex_keeps)
  next
    case (OpDelete c' n)
    with Pair h show ?thesis
      by (simp add: Delete_driver getOrCreateMutex_keeps)
  qed (use Pair h in simp_all)
qed

lemma run_keeps:
  "mutexes (fst s) c = Some m \<Longrightarrow> mutexes (fst (run marshal s ops)) c = Some m"
  unfolding run_def
  by (induction ops arbitrary: s) (simp_all add: apply_op_keeps)

text \<open>
  Claim C9. The lock registry only grows. Whatever sequence of writes, reads,
  listings and deletions runs on a store (deleting the collection included), a
  collection name that maps to a lock handle keeps mapping to that same handle: no
  call removes or replaces the entry, and a later acquisition for the name returns
  the handle it had.
\<close>

theorem lock_registry_only_grows:
  "mutexes (fst s) c = Some m \<Longrightarrow>
     mutexes (fst (run marshal s ops)) c = Some m \<and>
     fst (getOrCreateMutex (fst (run marshal s ops)) c) = m"
  by (simp add: run_keeps getOrCreateMutex_found)

lemma registry_after_first_write:
  "mutexes (fst (run demo_marshal (demo_store, [])
      [OpWrite ''users'' ''John'' (Str ''a'')])) ''users'' = Some 0"
  by (simp add: run_def Write_driver getOrCreateMutex_def demo_store_def)

theorem lock_registry_only_grows_witness:
  "mutexes (fst (run demo_marshal (demo_store, [])
      [OpWrite ''users'' ''John'' (Str ''a'')])) ''users'' = Some 0 \<and>
   mutexes (fst (run demo_marshal
      (run demo_marshal (demo_store, []) [OpWrite ''users'' ''John'' (Str ''a'')])
      [OpDelete ''users'' [], OpWrite ''users'' ''Paul'' (Str ''b''),
       OpReadAll ''users''])) ''users'' = Some 0 \<and>
   fst (getOrCreateMutex (fst (run demo_marshal
      (run demo_marshal (demo_store, []) [OpWrite ''users'' ''John'' (Str ''a'')])
      [OpDelete ''users'' [], OpWrite ''users'' ''Paul'' (Str ''b''),
       OpReadAll ''users''])) ''users'') = 0"
  using lock_registry_only_grows [OF registry_after_first_write, of demo_marshal
      "[OpDelete ''users'' [], OpWrite ''users'' ''Paul'' (Str ''b''), OpReadAll ''users'']"]
    registry_after_first_write by simp

end
